theory Spec2Isabelle
  imports Main "HOL-Library.Word"
begin

unbundle bit_operations_syntax

section \<open>The numeric codec of lib/utils/encoding.js\<close>

text \<open>
  The buffer is a JavaScript \<open>Buffer\<close> (a \<open>Uint8Array\<close>): a fixed-length sequence of
  octets. A JavaScript number is modelled as an \<open>int\<close>: every function below is applied
  to integers, and double arithmetic is exact on integers of magnitude at most \<open>2^53\<close>.
  An arbitrary-precision \<open>BN\<close> is an \<open>int\<close> as well.

  A failed \<open>assert\<close> is a fault. The library raises one kind of error for all of them; the
  model names the fault after what the assertion checks: an offset against \<open>data.length\<close>
  (\<open>BoundsFault\<close>) or a value against a numeric limit (\<open>RangeFault\<close>). A writer returns
  the buffer after its stores and the new offset; a fault carries no buffer. Every writer
  asserts before its first store, except \<open>writeVarint\<close> above \<open>0xffffffff\<close>, which stores
  the tag \<open>0xff\<close> and then calls \<open>writeU64\<close>.
\<close>

type_synonym byte = "8 word"
type_synonym buffer = "byte list"

datatype fault = BoundsFault | RangeFault | HostRead

text \<open>
  \<open>HostRead\<close> is the outcome of a fixed-width accessor of the host's \<open>Buffer\<close>
  (\<open>readUInt32LE\<close>, \<open>readUInt32BE\<close>) asked for bytes outside the buffer. The library
  calls the accessors with \<open>noAssert\<close> and asserts nothing itself on that path: the host
  raises its own range error or, where it honours \<open>noAssert\<close>, hands back a number that is
  not specified. Either way it is not a fault of the codec and not a decoded value, and
  the model keeps it apart from both.
\<close>

record varint =
  size_v :: nat
  value_v :: int

definition Varint :: "nat \<Rightarrow> int \<Rightarrow> varint" where
  "Varint s v = \<lparr>size_v = s, value_v = v\<rparr>"

definition MAX_SAFE_INTEGER :: int where
  "MAX_SAFE_INTEGER = 0x1fffffffffffff"

definition U64_MAX :: int where
  "U64_MAX = 0xffffffffffffffff"

subsection \<open>JavaScript's 32-bit operators on integers\<close>

definition toInt32 :: "int \<Rightarrow> int" where
  "toInt32 x = signed_take_bit 31 x"

definition toUint32 :: "int \<Rightarrow> int" where
  "toUint32 x = take_bit 32 x"

definition js_and :: "int \<Rightarrow> int \<Rightarrow> int" where
  \<comment> \<open>\<open>x & y\<close>\<close>
  "js_and x y = toInt32 x AND toInt32 y"

definition js_or :: "int \<Rightarrow> int \<Rightarrow> int" where
  \<comment> \<open>\<open>x | y\<close>\<close>
  "js_or x y = toInt32 x OR toInt32 y"

definition js_not :: "int \<Rightarrow> int" where
  \<comment> \<open>\<open>~x\<close>\<close>
  "js_not x = NOT (toInt32 x)"

definition js_shl :: "int \<Rightarrow> nat \<Rightarrow> int" where
  \<comment> \<open>\<open>x << k\<close>\<close>
  "js_shl x k = toInt32 (push_bit k (toInt32 x))"

definition js_sar :: "int \<Rightarrow> nat \<Rightarrow> int" where
  \<comment> \<open>\<open>x >> k\<close>, sign-propagating\<close>
  "js_sar x k = drop_bit k (toInt32 x)"

definition js_shr :: "int \<Rightarrow> nat \<Rightarrow> int" where
  \<comment> \<open>\<open>x >>> k\<close>, zero-filling\<close>
  "js_shr x k = drop_bit k (toUint32 x)"

subsection \<open>The host's buffer\<close>

definition u8 :: "buffer \<Rightarrow> nat \<Rightarrow> int" where
  \<comment> \<open>\<open>data[i]\<close> for an index inside the buffer\<close>
  "u8 data i = uint (data ! i)"

definition put :: "buffer \<Rightarrow> nat \<Rightarrow> int \<Rightarrow> buffer" where
  \<comment> \<open>\<open>dst[i] = v\<close>: the value is reduced modulo 256; a store outside the buffer is ignored\<close>
  "put dst i v = (if i < length dst then dst[i := word_of_int v] else dst)"

definition uint32LE :: "buffer \<Rightarrow> nat \<Rightarrow> int" where
  \<comment> \<open>the little-endian value of the four bytes from \<open>off\<close>\<close>
  "uint32LE data off =
     u8 data off + u8 data (off + 1) * 0x100 + u8 data (off + 2) * 0x10000
     + u8 data (off + 3) * 0x1000000"

definition uint32BE :: "buffer \<Rightarrow> nat \<Rightarrow> int" where
  \<comment> \<open>the big-endian value of the four bytes from \<open>off\<close>\<close>
  "uint32BE data off =
     u8 data off * 0x1000000 + u8 data (off + 1) * 0x10000 + u8 data (off + 2) * 0x100
     + u8 data (off + 3)"

definition readUInt32LE :: "buffer \<Rightarrow> nat \<Rightarrow> int option" where
  \<comment> \<open>\<open>data.readUInt32LE(off, true)\<close>\<close>
  "readUInt32LE data off = (if off + 4 \<le> length data then Some (uint32LE data off) else None)"

definition readUInt32BE :: "buffer \<Rightarrow> nat \<Rightarrow> int option" where
  \<comment> \<open>\<open>data.readUInt32BE(off, true)\<close>\<close>
  "readUInt32BE data off = (if off + 4 \<le> length data then Some (uint32BE data off) else None)"

subsection \<open>Fixed64: native reads\<close>

definition priv_readU64 :: "buffer \<Rightarrow> nat \<Rightarrow> bool \<Rightarrow> bool \<Rightarrow> fault + int" where
  \<comment> \<open>\<open>encoding._readU64\<close>\<close>
  "priv_readU64 data off force53 be =
     (case (if be then (readUInt32BE data off, readUInt32BE data (off + 4))
            else (readUInt32LE data (off + 4), readUInt32LE data off)) of
        (Some hi, Some lo) \<Rightarrow>
          (let hi = (if force53 then js_and hi 0x1fffff else hi) in
           if js_and hi 0xffe00000 \<noteq> 0 then Inl RangeFault
           else Inr (hi * 0x100000000 + lo))
      | _ \<Rightarrow> Inl HostRead)"

definition readU64 :: "buffer \<Rightarrow> nat \<Rightarrow> fault + int" where
  "readU64 data off = priv_readU64 data off False False"

definition readU64BE :: "buffer \<Rightarrow> nat \<Rightarrow> fault + int" where
  "readU64BE data off = priv_readU64 data off False True"

definition readU53 :: "buffer \<Rightarrow> nat \<Rightarrow> fault + int" where
  "readU53 data off = priv_readU64 data off True False"

definition readU53BE :: "buffer \<Rightarrow> nat \<Rightarrow> fault + int" where
  "readU53BE data off = priv_readU64 data off True True"

definition priv_read64 :: "buffer \<Rightarrow> nat \<Rightarrow> bool \<Rightarrow> bool \<Rightarrow> fault + int" where
  \<comment> \<open>\<open>encoding._read64\<close>\<close>
  "priv_read64 data off force53 be =
     (case (if be then (readUInt32BE data off, readUInt32BE data (off + 4))
            else (readUInt32LE data (off + 4), readUInt32LE data off)) of
        (Some hi, Some lo) \<Rightarrow>
          (if js_and hi 0x80000000 \<noteq> 0 then
             (let hi = js_shr (js_not hi) 0;
                  lo = js_shr (js_not lo) 0;
                  hi = (if force53 then js_and hi 0x1fffff else hi) in
              if js_and hi 0xffe00000 \<noteq> 0 then Inl RangeFault
              else Inr (- (hi * 0x100000000 + lo + 1)))
           else
             (let hi = (if force53 then js_and hi 0x1fffff else hi) in
              if js_and hi 0xffe00000 \<noteq> 0 then Inl RangeFault
              else Inr (hi * 0x100000000 + lo)))
      | _ \<Rightarrow> Inl HostRead)"

definition read64 :: "buffer \<Rightarrow> nat \<Rightarrow> fault + int" where
  "read64 data off = priv_read64 data off False False"

definition read64BE :: "buffer \<Rightarrow> nat \<Rightarrow> fault + int" where
  "read64BE data off = priv_read64 data off False True"

subsection \<open>Fixed64: native writes\<close>

definition store64 :: "buffer \<Rightarrow> nat \<Rightarrow> int \<Rightarrow> int \<Rightarrow> bool \<Rightarrow> buffer" where
  \<comment> \<open>the eight stores \<open>dst[off++] = ...\<close> of \<open>encoding._write64\<close>, in the order of each branch\<close>
  "store64 dst off hi lo be =
     (if be then
        put (put (put (put (put (put (put (put dst
          off (js_shr hi 24))
          (off + 1) (js_and (js_sar hi 16) 0xff))
          (off + 2) (js_and (js_sar hi 8) 0xff))
          (off + 3) (js_and hi 0xff))
          (off + 4) (js_shr lo 24))
          (off + 5) (js_and (js_sar lo 16) 0xff))
          (off + 6) (js_and (js_sar lo 8) 0xff))
          (off + 7) (js_and lo 0xff)
      else
        put (put (put (put (put (put (put (put dst
          off (js_and lo 0xff))
          (off + 1) (js_and (js_sar lo 8) 0xff))
          (off + 2) (js_and (js_sar lo 16) 0xff))
          (off + 3) (js_shr lo 24))
          (off + 4) (js_and hi 0xff))
          (off + 5) (js_and (js_sar hi 8) 0xff))
          (off + 6) (js_and (js_sar hi 16) 0xff))
          (off + 7) (js_shr hi 24))"

definition priv_write64 :: "buffer \<Rightarrow> int \<Rightarrow> nat \<Rightarrow> bool \<Rightarrow> fault + (buffer \<times> nat)" where
  \<comment> \<open>\<open>encoding._write64\<close>: the new buffer contents and the returned offset\<close>
  "priv_write64 dst num0 off be =
     (let negative = num0 < 0;
          num = (if negative then - num0 - 1 else num0) in
      if \<not> num \<le> MAX_SAFE_INTEGER then Inl RangeFault
      else
        let lo0 = num mod 0x100000000;
            hi0 = (num - lo0) div 0x100000000;
            hi = (if negative then js_shr (js_not hi0) 0 else hi0);
            lo = (if negative then js_shr (js_not lo0) 0 else lo0) in
        Inr (store64 dst off hi lo be, off + 8))"

definition writeU64 :: "buffer \<Rightarrow> int \<Rightarrow> nat \<Rightarrow> fault + (buffer \<times> nat)" where
  "writeU64 dst num off = priv_write64 dst num off False"

definition writeU64BE :: "buffer \<Rightarrow> int \<Rightarrow> nat \<Rightarrow> fault + (buffer \<times> nat)" where
  "writeU64BE dst num off = priv_write64 dst num off True"

definition write64 :: "buffer \<Rightarrow> int \<Rightarrow> nat \<Rightarrow> fault + (buffer \<times> nat)" where
  "write64 dst num off = priv_write64 dst num off False"

definition write64BE :: "buffer \<Rightarrow> int \<Rightarrow> nat \<Rightarrow> fault + (buffer \<times> nat)" where
  "write64BE dst num off = priv_write64 dst num off True"

subsection \<open>Arbitrary-precision integers\<close>

text \<open>
  \<open>bn.js\<close> is a collaborator of the library. Its operations are taken by their documented
  meaning on the integer a \<open>BN\<close> holds: \<open>bitLength\<close> is the number of bits of the
  magnitude, \<open>words[0]\<close> the low 26 bits of the magnitude, \<open>toNumber\<close> the integer itself
  (for at most 53 bits), \<open>new BN(bytes, 'le')\<close> the little-endian value of the bytes.
  A \<open>BN\<close> is a mutable object: a function that takes one returns, next to its result, the
  integer that the caller's object holds after the call.
\<close>

function bitLength_mag :: "int \<Rightarrow> nat" where
  \<comment> \<open>the number of bits of a magnitude\<close>
  "bitLength_mag m = (if m \<le> 0 then 0 else Suc (bitLength_mag (m div 2)))"
  by pat_completeness auto
termination
  by (relation "measure nat") auto

declare bitLength_mag.simps [simp del]

definition bitLength :: "int \<Rightarrow> nat" where
  "bitLength x = bitLength_mag \<bar>x\<bar>"

definition word0 :: "int \<Rightarrow> int" where
  \<comment> \<open>\<open>num.words[0]\<close>\<close>
  "word0 x = \<bar>x\<bar> mod 0x4000000"

fun BN_le :: "byte list \<Rightarrow> int" where
  \<comment> \<open>\<open>new BN(bytes, 'le')\<close>\<close>
  "BN_le [] = 0"
| "BN_le (b # bs) = uint b + 0x100 * BN_le bs"

definition readU64BN :: "buffer \<Rightarrow> nat \<Rightarrow> int" where
  \<comment> \<open>\<open>data.slice(off, off + 8)\<close> is clamped to the buffer\<close>
  "readU64BN data off = BN_le (take 8 (drop off data))"

subsection \<open>Varint-A: the compact-size encoding\<close>

definition readVarint :: "buffer \<Rightarrow> nat \<Rightarrow> fault + varint" where
  "readVarint data off =
     (if \<not> off < length data then Inl BoundsFault
      else if u8 data off = 0xff then
        (if \<not> off + 9 \<le> length data then Inl BoundsFault
         else case readU64 data (off + 1) of
                Inl e \<Rightarrow> Inl e
              | Inr v \<Rightarrow> if \<not> v > 0xffffffff then Inl RangeFault else Inr (Varint 9 v))
      else if u8 data off = 0xfe then
        (if \<not> off + 5 \<le> length data then Inl BoundsFault
         else case readUInt32LE data (off + 1) of
                None \<Rightarrow> Inl HostRead
              | Some v \<Rightarrow> if \<not> v > 0xffff then Inl RangeFault else Inr (Varint 5 v))
      else if u8 data off = 0xfd then
        (if \<not> off + 3 \<le> length data then Inl BoundsFault
         else let v = js_or (u8 data (off + 1)) (js_shl (u8 data (off + 2)) 8) in
              if \<not> v \<ge> 0xfd then Inl RangeFault else Inr (Varint 3 v))
      else Inr (Varint 1 (u8 data off)))"


definition skipVarint :: "buffer \<Rightarrow> nat \<Rightarrow> fault + nat" where
  "skipVarint data off =
     (if \<not> off < length data then Inl BoundsFault
      else if u8 data off = 0xff then Inr 9
      else if u8 data off = 0xfe then Inr 5
      else if u8 data off = 0xfd then Inr 3
      else Inr 1)"

definition sizeVarint :: "int \<Rightarrow> nat" where
  "sizeVarint num =
     (if num < 0xfd then 1 else if num \<le> 0xffff then 3 else if num \<le> 0xffffffff then 5 else 9)"

definition readVarintBN :: "buffer \<Rightarrow> nat \<Rightarrow> fault + varint" where
  "readVarintBN data off =
     (if \<not> off < length data then Inl BoundsFault
      else if u8 data off = 0xff then
        (if \<not> off + 9 \<le> length data then Inl BoundsFault
         else let v = readU64BN data (off + 1) in
              if \<not> bitLength v > 32 then Inl RangeFault else Inr (Varint 9 v))
      else readVarint data off)"

subsection \<open>Varint-B: the continuation-bit encoding\<close>

function readVarint2_loop :: "buffer \<Rightarrow> nat \<Rightarrow> nat \<Rightarrow> int \<Rightarrow> fault + varint" where
  "readVarint2_loop data off sz num =
     (if \<not> off < length data then Inl BoundsFault
      else
        let ch = u8 data off;
            sz' = sz + 1 in
        if \<not> num < 0x3fffffffffff then Inl RangeFault
        else
          let num' = num * 0x80 + js_and ch 0x7f in
          if js_and ch 0x80 = 0 then Inr (Varint sz' num')
          else readVarint2_loop data (off + 1) sz' (num' + 1))"
  by pat_completeness auto
termination
  by (relation "measure (\<lambda>(data, off, sz, num). length data - off)") auto

declare readVarint2_loop.simps [simp del]

definition readVarint2 :: "buffer \<Rightarrow> nat \<Rightarrow> fault + varint" where
  "readVarint2 data off = readVarint2_loop data off 0 0"

text \<open>
  The digit loop of \<open>writeVarint2\<close>: \<open>tmp[len] = ...\<close> extends the array, whose length
  is \<open>len\<close> at that point. \<open>num % 0x80\<close> is evaluated only when \<open>num > 0x7f\<close>, where
  JavaScript's remainder is \<open>mod\<close>. The result is the array and the final \<open>len\<close>.
  The loops of \<open>writeVarint2\<close> and \<open>sizeVarint2\<close> are modelled on exact integers: they
  agree with the code's double arithmetic for \<open>num\<close> up to \<open>2^53\<close>; above it the code
  rounds, and the model does not follow it there.
\<close>

function varint2_tmp :: "int \<Rightarrow> nat \<Rightarrow> int list \<Rightarrow> int list \<times> nat" where
  "varint2_tmp num len tmp =
     (let tmp' = tmp @ [js_or (js_and num 0x7f) (if len \<noteq> 0 then 0x80 else 0x00)] in
      if num \<le> 0x7f then (tmp', len)
      else varint2_tmp ((num - num mod 0x80) div 0x80 - 1) (len + 1) tmp')"
  by pat_completeness auto
termination
  by (relation "measure (\<lambda>(num, len, tmp). nat num)") auto

declare varint2_tmp.simps [simp del]

fun emit :: "buffer \<Rightarrow> nat \<Rightarrow> int list \<Rightarrow> nat \<Rightarrow> buffer \<times> nat" where
  \<comment> \<open>\<open>do { dst[off++] = tmp[len]; } while (len--);\<close>\<close>
  "emit dst off tmp 0 = (put dst off (tmp ! 0), off + 1)"
| "emit dst off tmp (Suc len) = emit (put dst off (tmp ! Suc len)) (off + 1) tmp len"

definition writeVarint2 :: "buffer \<Rightarrow> int \<Rightarrow> nat option \<Rightarrow> fault + (buffer \<times> nat)" where
  \<comment> \<open>The offset is \<open>None\<close> when the caller passes no third argument: \<open>off\<close> is then
      \<open>undefined\<close>, \<open>off + len\<close> is \<open>NaN\<close> and \<open>NaN <= dst.length\<close> is false.\<close>
  "writeVarint2 dst num off_arg =
     (case varint2_tmp num 0 [] of (tmp, len) \<Rightarrow>
        (case off_arg of
           None \<Rightarrow> Inl BoundsFault
         | Some off \<Rightarrow>
             if \<not> off + len \<le> length dst then Inl BoundsFault
             else Inr (emit dst off tmp len)))"

function sizeVarint2_loop :: "int \<Rightarrow> nat \<Rightarrow> nat" where
  "sizeVarint2_loop num sz =
     (let sz' = sz + 1 in
      if num \<le> 0x7f then sz'
      else sizeVarint2_loop ((num - num mod 0x80) div 0x80 - 1) sz')"
  by pat_completeness auto
termination
  by (relation "measure (\<lambda>(num, sz). nat num)") auto

declare sizeVarint2_loop.simps [simp del]

definition sizeVarint2 :: "int \<Rightarrow> nat" where
  "sizeVarint2 num = sizeVarint2_loop num 0"

subsection \<open>Varint-B on arbitrary-precision integers\<close>

function readVarint2BN_big :: "buffer \<Rightarrow> nat \<Rightarrow> nat \<Rightarrow> int \<Rightarrow> fault + varint" where
  \<comment> \<open>the second loop, on a \<open>BN\<close>\<close>
  "readVarint2BN_big data off sz num =
     (if \<not> off < length data then Inl BoundsFault
      else
        let ch = u8 data off;
            sz' = sz + 1 in
        if \<not> bitLength num \<le> 64 then Inl RangeFault
        else
          let num' = push_bit 7 num + js_and ch 0x7f in
          if js_and ch 0x80 = 0 then Inr (Varint sz' num')
          else readVarint2BN_big data (off + 1) sz' (num' + 1))"
  by pat_completeness auto
termination
  by (relation "measure (\<lambda>(data, off, sz, num). length data - off)") auto

declare readVarint2BN_big.simps [simp del]

function readVarint2BN_loop :: "buffer \<Rightarrow> nat \<Rightarrow> nat \<Rightarrow> int \<Rightarrow> fault + varint" where
  \<comment> \<open>the first loop, on a native number, which falls through to the second\<close>
  "readVarint2BN_loop data off sz num =
     (if num < 0x3fffffffffff then
        (if \<not> off < length data then Inl BoundsFault
         else
           let ch = u8 data off;
               sz' = sz + 1;
               num' = num * 0x80 + js_and ch 0x7f in
           if js_and ch 0x80 = 0 then Inr (Varint sz' num')
           else readVarint2BN_loop data (off + 1) sz' (num' + 1))
      else readVarint2BN_big data off sz num)"
  by pat_completeness auto
termination
  by (relation "measure (\<lambda>(data, off, sz, num). length data - off)") auto

declare readVarint2BN_loop.simps [simp del]

definition readVarint2BN :: "buffer \<Rightarrow> nat \<Rightarrow> fault + varint" where
  "readVarint2BN data off = readVarint2BN_loop data off 0 0"

function varint2BN_tmp :: "int \<Rightarrow> nat \<Rightarrow> int list \<Rightarrow> int list \<times> nat \<times> int" where
  \<comment> \<open>the digit loop of \<open>writeVarint2BN\<close>, run on the caller's \<open>BN\<close> itself
      (\<open>iushrn\<close> and \<open>isubn\<close> work in place): the array, the final \<open>len\<close> and the
      integer left in the caller's object\<close>
  "varint2BN_tmp num len tmp =
     (let tmp' = tmp @ [js_or (js_and (word0 num) 0x7f) (if len \<noteq> 0 then 0x80 else 0x00)] in
      if num \<le> 0x7f then (tmp', len, num)
      else varint2BN_tmp (drop_bit 7 num - 1) (len + 1) tmp')"
  by pat_completeness auto
termination
  by (relation "measure (\<lambda>(num, len, tmp). nat num)") (auto simp add: drop_bit_eq_div)

declare varint2BN_tmp.simps [simp del]

definition writeVarint2BN :: "buffer \<Rightarrow> int \<Rightarrow> nat \<Rightarrow> (fault + (buffer \<times> nat)) \<times> int" where
  \<comment> \<open>the result, and the integer held by the caller's \<open>num\<close> after the call\<close>
  "writeVarint2BN dst num off =
     (if bitLength num \<le> 53 then (writeVarint2 dst num None, num)
      else
        case varint2BN_tmp num 0 [] of (tmp, len, num') \<Rightarrow>
          (if \<not> off + len \<le> length dst then Inl BoundsFault
           else Inr (emit dst off tmp len),
           num'))"

function sizeVarint2BN_loop :: "int \<Rightarrow> nat \<Rightarrow> nat" where
  "sizeVarint2BN_loop num sz =
     (let sz' = sz + 1 in
      if num \<le> 0x7f then sz'
      else sizeVarint2BN_loop (drop_bit 7 num - 1) sz')"
  by pat_completeness auto
termination
  by (relation "measure (\<lambda>(num, sz). nat num)") (auto simp add: drop_bit_eq_div)

declare sizeVarint2BN_loop.simps [simp del]

definition sizeVarint2BN :: "int \<Rightarrow> nat \<times> int" where
  \<comment> \<open>the size, and the integer held by the caller's \<open>num\<close> after the call: the loop
      runs on \<open>num.clone()\<close>\<close>
  "sizeVarint2BN num =
     (if bitLength num \<le> 53 then (sizeVarint num, num)
      else (sizeVarint2BN_loop num 0, num))"

section \<open>Auxiliary facts\<close>

subsection \<open>Facts about the 32-bit operators\<close>

lemma js_and_low: 
  assumes "n \<le> 31" shows "js_and x (mask n) = x mod 2 ^ n"
proof -
  have "toInt32 (mask n) = (mask n :: int)"
    unfolding toInt32_def using assms
    by (intro bit_eqI) (auto simp add: bit_simps)
  then have "js_and x (mask n) = take_bit n (signed_take_bit 31 x)"
    by (simp add: js_and_def toInt32_def take_bit_eq_mask)
  also have "\<dots> = take_bit n x"
    using assms by (simp add: take_bit_signed_take_bit)
  finally show ?thesis by (simp add: take_bit_eq_mod)
qed

lemma js_and_ff: "js_and x 0xff = x mod 256"
  using js_and_low [of 8 x] by (simp add: mask_eq_exp_minus_1)

lemma js_and_1fffff: "js_and x 0x1fffff = x mod 2097152"
  using js_and_low [of 21 x] by (simp add: mask_eq_exp_minus_1)

lemma js_and_7f: "js_and x 0x7f = x mod 128"
  using js_and_low [of 7 x] by (simp add: mask_eq_exp_minus_1)

lemma toInt32_small: "- (2 ^ 31) \<le> x \<Longrightarrow> x < 2 ^ 31 \<Longrightarrow> toInt32 x = x"
  unfolding toInt32_def
  by (simp add: signed_take_bit_int_eq_self)

lemma js_sar_ff:
  assumes "k \<le> 23" shows "js_and (js_sar x k) 0xff = (x div 2 ^ k) mod 256"
proof -
  have "js_and (js_sar x k) 0xff = take_bit 8 (drop_bit k (signed_take_bit 31 x))"
    by (simp add: js_and_ff js_sar_def toInt32_def take_bit_eq_mod)
  also have "\<dots> = drop_bit k (take_bit (8 + k) (signed_take_bit 31 x))"
    by (simp add: take_bit_drop_bit)
  also have "\<dots> = drop_bit k (take_bit (8 + k) x)"
    using assms by (simp add: take_bit_signed_take_bit)
  also have "\<dots> = take_bit 8 (drop_bit k x)"
    by (simp add: take_bit_drop_bit)
  finally show ?thesis by (simp add: take_bit_eq_mod drop_bit_eq_div)
qed

lemma js_shr_24: "0 \<le> x \<Longrightarrow> x < 2 ^ 32 \<Longrightarrow> js_shr x 24 = x div 2 ^ 24"
  by (simp add: js_shr_def toUint32_def take_bit_int_eq_self drop_bit_eq_div)

lemma js_not_shr0: 
  assumes "0 \<le> x" "x < 2 ^ 32" shows "js_shr (js_not x) 0 = 2 ^ 32 - 1 - x"
proof -
  have "js_shr (js_not x) 0 = take_bit 32 (NOT (signed_take_bit 31 x))"
    by (simp add: js_shr_def js_not_def toUint32_def toInt32_def)
  also have "\<dots> = mask 32 - take_bit 32 (signed_take_bit 31 x)"
    by (simp add: take_bit_not_eq_mask_diff)
  also have "\<dots> = mask 32 - take_bit 32 x"
    by (simp add: take_bit_signed_take_bit)
  also have "\<dots> = 2 ^ 32 - 1 - x"
    using assms by (simp add: take_bit_int_eq_self mask_eq_exp_minus_1)
  finally show ?thesis .
qed

lemma and_not_mask_int: "(y::int) AND NOT (mask n) = push_bit n (drop_bit n y)"
  by (rule bit_eqI) (auto simp add: bit_simps)

lemma div_eq_0_pos: "0 < (p::int) \<Longrightarrow> (y div p = 0) = (0 \<le> y \<and> y < p)"
  by (auto simp add: zdiv_eq_0_iff)

lemma and_not_mask_eq_0: "(y::int) AND NOT (mask n) = 0 \<longleftrightarrow> 0 \<le> y \<and> y < 2 ^ n"
proof -
  have "(y::int) AND NOT (mask n) = 0 \<longleftrightarrow> y div 2 ^ n = 0"
    by (simp add: and_not_mask_int push_bit_eq_mult drop_bit_eq_div)
  also have "\<dots> \<longleftrightarrow> 0 \<le> y \<and> y < 2 ^ n"
    by (rule div_eq_0_pos) simp
  finally show ?thesis .
qed

lemma toInt32_u32:
  "0 \<le> x \<Longrightarrow> x < 2 ^ 32 \<Longrightarrow> toInt32 x = (if x < 2 ^ 31 then x else x - 2 ^ 32)"
proof (cases "x < 2 ^ 31")
  case True
  assume "0 \<le> x"
  with True show ?thesis
    by (simp add: toInt32_def signed_take_bit_int_eq_self)
next
  case False
  assume "x < 2 ^ 32"
  have "take_bit (Suc 31) x = take_bit (Suc 31) (x - 2 ^ 32)"
    by (simp add: take_bit_eq_mod)
  then have "signed_take_bit 31 x = signed_take_bit 31 (x - 2 ^ 32)"
    by (simp only: signed_take_bit_eq_iff_take_bit_eq)
  also have "\<dots> = x - 2 ^ 32"
    using False \<open>x < 2 ^ 32\<close> by (intro signed_take_bit_int_eq_self) simp_all
  finally show ?thesis
    using False by (simp add: toInt32_def)
qed

lemma js_and_high11:
  assumes "0 \<le> x" "x < 2 ^ 32" shows "js_and x 0xffe00000 = 0 \<longleftrightarrow> x < 2 ^ 21"
proof -
  have c: "toInt32 0xffe00000 = NOT (mask 21)"
    by (simp add: toInt32_def signed_take_bit_eq_take_bit_shift mask_eq_exp_minus_1 not_int_def)
  have "js_and x 0xffe00000 = 0 \<longleftrightarrow> 0 \<le> toInt32 x \<and> toInt32 x < 2 ^ 21"
    unfolding js_and_def c by (rule and_not_mask_eq_0)
  also have "\<dots> \<longleftrightarrow> x < 2 ^ 21"
    using assms by (simp add: toInt32_u32)
  finally show ?thesis .
qed

lemma js_and_sign:
  assumes "0 \<le> x" "x < 2 ^ 32" shows "js_and x 0x80000000 = 0 \<longleftrightarrow> x < 2 ^ 31"
proof -
  have c: "toInt32 0x80000000 = NOT (mask 31)"
    by (simp add: toInt32_def signed_take_bit_eq_take_bit_shift mask_eq_exp_minus_1 not_int_def)
  have "js_and x 0x80000000 = 0 \<longleftrightarrow> 0 \<le> toInt32 x \<and> toInt32 x < 2 ^ 31"
    unfolding js_and_def c by (rule and_not_mask_eq_0)
  also have "\<dots> \<longleftrightarrow> x < 2 ^ 31"
    using assms by (simp add: toInt32_u32)
  finally show ?thesis .
qed

subsection \<open>Facts about the buffer\<close>

lemma length_put [simp]: "length (put dst i v) = length dst"
  by (simp add: put_def)

lemma u8_put: "j < length dst \<Longrightarrow> u8 (put dst i v) j = (if i = j then v mod 256 else u8 dst j)"
  by (simp add: put_def u8_def uint_word_of_int take_bit_eq_mod)

lemma u8_bounds: "0 \<le> u8 data i" "u8 data i < 256" "u8 data i \<le> 255"
  using uint_bounded [of "data ! i"] by (simp_all add: u8_def)

lemma uint32LE_bounds: "0 \<le> uint32LE data off" "uint32LE data off < 2 ^ 32"
  using u8_bounds [of data off] u8_bounds [of data "off + 1"] u8_bounds [of data "off + 2"]
    u8_bounds [of data "off + 3"]
  by (simp_all add: uint32LE_def)

lemma uint32BE_bounds: "0 \<le> uint32BE data off" "uint32BE data off < 2 ^ 32"
  using u8_bounds [of data off] u8_bounds [of data "off + 1"] u8_bounds [of data "off + 2"]
    u8_bounds [of data "off + 3"]
  by (simp_all add: uint32BE_def)

subsection \<open>Arithmetic of the 32-bit halves\<close>

lemma split32: 
  assumes "0 \<le> (x::int)" "x < 2 ^ 32"
  shows "x mod 256 + (x div 256 mod 256) * 256 + (x div 65536 mod 256) * 65536 + (x div 16777216) * 16777216 = x"
proof -
  have d1: "x div 65536 = x div 256 div 256"
    using zdiv_zmult2_eq [of 256 x 256] by simp
  have d2: "x div 16777216 = x div 65536 div 256"
    using zdiv_zmult2_eq [of 256 x 65536] by simp
  have a: "x = (x div 256) * 256 + x mod 256" by simp
  have b: "x div 256 = (x div 65536) * 256 + x div 256 mod 256"
    unfolding d1 by simp
  have c: "x div 65536 = (x div 16777216) * 256 + x div 65536 mod 256"
    unfolding d2 by simp
  show ?thesis using a b c by linarith
qed

lemma mod53:
  assumes "0 \<le> (lo::int)" "lo < 4294967296" 
  shows "(hi mod 2097152) * 4294967296 + lo = (hi * 4294967296 + lo) mod 9007199254740992"
proof -
  have "hi * 4294967296 = (hi div 2097152 * 2097152 + hi mod 2097152) * 4294967296"
    by simp
  also have "\<dots> = ((hi mod 2097152) * 4294967296) + (hi div 2097152) * 9007199254740992"
    by (simp only: distrib_right mult.assoc)
  finally have "hi * 4294967296 + lo = ((hi mod 2097152) * 4294967296 + lo) + (hi div 2097152) * 9007199254740992"
    by simp
  then have "(hi * 4294967296 + lo) mod 9007199254740992 = ((hi mod 2097152) * 4294967296 + lo) mod 9007199254740992"
    by (simp only: mod_mult_self1)
  also have "\<dots> = (hi mod 2097152) * 4294967296 + lo"
  proof (rule mod_pos_pos_trivial)
    have h: "0 \<le> hi mod 2097152" "hi mod 2097152 \<le> 2097151"
      using pos_mod_bound [of 2097152 hi] by simp_all
    show "0 \<le> (hi mod 2097152) * 4294967296 + lo" using h assms by simp
    show "(hi mod 2097152) * 4294967296 + lo < 9007199254740992" using h assms by simp
  qed
  finally show ?thesis by simp
qed

lemma priv_readU64_force53:
  assumes "0 \<le> hi" "hi < 2 ^ 32" 
  shows "js_and (js_and hi 0x1fffff) 0xffe00000 = 0"
proof -
  have "0 \<le> hi mod 2097152" "hi mod 2097152 < 2097152" by simp_all
  then show ?thesis
    using js_and_high11 [of "hi mod 2097152"] by (simp add: js_and_1fffff)
qed

subsection \<open>Fixed64: what a write stores and what a read returns\<close>

lemma js_bytes:
  assumes "0 \<le> x" "x < 2 ^ 32"
  shows "js_and x 0xff = x mod 256" "js_and (js_sar x 8) 0xff = x div 256 mod 256"
    "js_and (js_sar x 16) 0xff = x div 65536 mod 256" "js_shr x 24 = x div 16777216"
    "x div 16777216 mod 256 = x div 16777216"
proof -
  show "js_and x 0xff = x mod 256" by (rule js_and_ff)
  show "js_and (js_sar x 8) 0xff = x div 256 mod 256" using js_sar_ff [of 8 x] by simp
  show "js_and (js_sar x 16) 0xff = x div 65536 mod 256" using js_sar_ff [of 16 x] by simp
  show "js_shr x 24 = x div 16777216" using js_shr_24 [OF assms] by simp
  have "0 \<le> x div 16777216" "x div 16777216 < 256" using assms by simp_all
  then show "x div 16777216 mod 256 = x div 16777216" by simp
qed

lemma le_chain_bytes:
  fixes b0 b1 b2 b3 b4 b5 b6 b7 :: int
  assumes "off + 8 \<le> length dst"
  defines "b \<equiv> put (put (put (put (put (put (put (put dst
                 off b0) (off + 1) b1) (off + 2) b2) (off + 3) b3)
                 (off + 4) b4) (off + 5) b5) (off + 6) b6) (off + 7) b7"
  shows "u8 b off = b0 mod 256" "u8 b (off + 1) = b1 mod 256" "u8 b (off + 2) = b2 mod 256"
    "u8 b (off + 3) = b3 mod 256" "u8 b (off + 4) = b4 mod 256" "u8 b (off + 5) = b5 mod 256"
    "u8 b (off + 6) = b6 mod 256" "u8 b (off + 7) = b7 mod 256" "length b = length dst"
  using assms(1) by (simp_all add: b_def u8_put)


lemma uint32LE_of_bytes:
  assumes "u8 b off = x mod 256" "u8 b (off + 1) = x div 256 mod 256"
    "u8 b (off + 2) = x div 65536 mod 256" "u8 b (off + 3) = x div 16777216"
    "0 \<le> x" "x < 2 ^ 32"
  shows "uint32LE b off = x"
proof -
  have "uint32LE b off = x mod 256 + (x div 256 mod 256) * 256 + (x div 65536 mod 256) * 65536
          + (x div 16777216) * 16777216"
    unfolding uint32LE_def assms(1-4) by simp
  also have "\<dots> = x"
    by (rule split32) fact+
  finally show ?thesis .
qed

lemma uint32BE_of_bytes:
  assumes "u8 b (off + 3) = x mod 256" "u8 b (off + 2) = x div 256 mod 256"
    "u8 b (off + 1) = x div 65536 mod 256" "u8 b off = x div 16777216"
    "0 \<le> x" "x < 2 ^ 32"
  shows "uint32BE b off = x"
proof -
  have "uint32BE b off = x mod 256 + (x div 256 mod 256) * 256 + (x div 65536 mod 256) * 65536
          + (x div 16777216) * 16777216"
    unfolding uint32BE_def assms(1-4) by simp
  also have "\<dots> = x"
    by (rule split32) fact+
  finally show ?thesis .
qed

lemma uint32LE_of_bytes4:
  assumes "u8 b (off + 4) = x mod 256" "u8 b (off + 5) = x div 256 mod 256"
    "u8 b (off + 6) = x div 65536 mod 256" "u8 b (off + 7) = x div 16777216"
    "0 \<le> x" "x < 2 ^ 32"
  shows "uint32LE b (off + 4) = x"
proof -
  have e: "off + 4 + 1 = off + 5" "off + 4 + 2 = off + 6" "off + 4 + 3 = off + 7" by simp_all
  have "uint32LE b (off + 4) = x mod 256 + (x div 256 mod 256) * 256 + (x div 65536 mod 256) * 65536
          + (x div 16777216) * 16777216"
    unfolding uint32LE_def e assms(1-4) by simp
  also have "\<dots> = x"
    by (rule split32) fact+
  finally show ?thesis .
qed

lemma uint32BE_of_bytes4:
  assumes "u8 b (off + 7) = x mod 256" "u8 b (off + 6) = x div 256 mod 256"
    "u8 b (off + 5) = x div 65536 mod 256" "u8 b (off + 4) = x div 16777216"
    "0 \<le> x" "x < 2 ^ 32"
  shows "uint32BE b (off + 4) = x"
proof -
  have e: "off + 4 + 1 = off + 5" "off + 4 + 2 = off + 6" "off + 4 + 3 = off + 7" by simp_all
  have "uint32BE b (off + 4) = x mod 256 + (x div 256 mod 256) * 256 + (x div 65536 mod 256) * 65536
          + (x div 16777216) * 16777216"
    unfolding uint32BE_def e assms(1-4) by simp
  also have "\<dots> = x"
    by (rule split32) fact+
  finally show ?thesis .
qed

lemma le_chain:
  assumes "off + 8 \<le> length dst" "0 \<le> lo" "lo < 2 ^ 32" "0 \<le> hi" "hi < 2 ^ 32"
  defines "b \<equiv> put (put (put (put (put (put (put (put dst
                 off (js_and lo 0xff))
                 (off + 1) (js_and (js_sar lo 8) 0xff))
                 (off + 2) (js_and (js_sar lo 16) 0xff))
                 (off + 3) (js_shr lo 24))
                 (off + 4) (js_and hi 0xff))
                 (off + 5) (js_and (js_sar hi 8) 0xff))
                 (off + 6) (js_and (js_sar hi 16) 0xff))
                 (off + 7) (js_shr hi 24)"
  shows "uint32LE b off = lo" "uint32LE b (off + 4) = hi"
proof -
  have "u8 b off = js_and lo 0xff mod 256" "u8 b (off + 1) = js_and (js_sar lo 8) 0xff mod 256"
    "u8 b (off + 2) = js_and (js_sar lo 16) 0xff mod 256" "u8 b (off + 3) = js_shr lo 24 mod 256"
    "u8 b (off + 4) = js_and hi 0xff mod 256" "u8 b (off + 5) = js_and (js_sar hi 8) 0xff mod 256"
    "u8 b (off + 6) = js_and (js_sar hi 16) 0xff mod 256" "u8 b (off + 7) = js_shr hi 24 mod 256"
    unfolding b_def by (rule le_chain_bytes [OF assms(1)])+
  then have L: "u8 b off = lo mod 256" "u8 b (off + 1) = lo div 256 mod 256"
    "u8 b (off + 2) = lo div 65536 mod 256" "u8 b (off + 3) = lo div 16777216"
    "u8 b (off + 4) = hi mod 256" "u8 b (off + 5) = hi div 256 mod 256"
    "u8 b (off + 6) = hi div 65536 mod 256" "u8 b (off + 7) = hi div 16777216"
    by (simp_all only: js_bytes [OF assms(2,3)] js_bytes [OF assms(4,5)] mod_mod_trivial)
  show "uint32LE b off = lo"
    by (rule uint32LE_of_bytes [OF L(1-4) assms(2,3)])
  show "uint32LE b (off + 4) = hi"
    by (rule uint32LE_of_bytes4 [OF L(5-8) assms(4,5)])
qed

lemma be_chain:
  assumes "off + 8 \<le> length dst" "0 \<le> lo" "lo < 2 ^ 32" "0 \<le> hi" "hi < 2 ^ 32"
  defines "b \<equiv> put (put (put (put (put (put (put (put dst
                 off (js_shr hi 24))
                 (off + 1) (js_and (js_sar hi 16) 0xff))
                 (off + 2) (js_and (js_sar hi 8) 0xff))
                 (off + 3) (js_and hi 0xff))
                 (off + 4) (js_shr lo 24))
                 (off + 5) (js_and (js_sar lo 16) 0xff))
                 (off + 6) (js_and (js_sar lo 8) 0xff))
                 (off + 7) (js_and lo 0xff)"
  shows "uint32BE b off = hi" "uint32BE b (off + 4) = lo"
proof -
  have "u8 b off = js_shr hi 24 mod 256" "u8 b (off + 1) = js_and (js_sar hi 16) 0xff mod 256"
    "u8 b (off + 2) = js_and (js_sar hi 8) 0xff mod 256" "u8 b (off + 3) = js_and hi 0xff mod 256"
    "u8 b (off + 4) = js_shr lo 24 mod 256" "u8 b (off + 5) = js_and (js_sar lo 16) 0xff mod 256"
    "u8 b (off + 6) = js_and (js_sar lo 8) 0xff mod 256" "u8 b (off + 7) = js_and lo 0xff mod 256"
    unfolding b_def by (rule le_chain_bytes [OF assms(1)])+
  then have L: "u8 b (off + 3) = hi mod 256" "u8 b (off + 2) = hi div 256 mod 256"
    "u8 b (off + 1) = hi div 65536 mod 256" "u8 b off = hi div 16777216"
    "u8 b (off + 7) = lo mod 256" "u8 b (off + 6) = lo div 256 mod 256"
    "u8 b (off + 5) = lo div 65536 mod 256" "u8 b (off + 4) = lo div 16777216"
    by (simp_all only: js_bytes [OF assms(2,3)] js_bytes [OF assms(4,5)] mod_mod_trivial)
  show "uint32BE b off = hi"
    by (rule uint32BE_of_bytes [OF L(1-4) assms(4,5)])
  show "uint32BE b (off + 4) = lo"
    by (rule uint32BE_of_bytes4 [OF L(5-8) assms(2,3)])
qed


lemma store64_layout:
  assumes "off + 8 \<le> length dst" "0 \<le> lo" "lo < 2 ^ 32" "0 \<le> hi" "hi < 2 ^ 32"
  shows "uint32LE (store64 dst off hi lo False) off = lo"
    "uint32LE (store64 dst off hi lo False) (off + 4) = hi"
    "uint32BE (store64 dst off hi lo True) off = hi"
    "uint32BE (store64 dst off hi lo True) (off + 4) = lo"
    "length (store64 dst off hi lo be) = length dst"
  using le_chain [OF assms] be_chain [OF assms] by (simp_all add: store64_def)

lemma halves:
  assumes "0 \<le> (num::int)" "num \<le> MAX_SAFE_INTEGER"
  shows "(num - num mod 4294967296) div 4294967296 = num div 4294967296"
    "0 \<le> num div 4294967296" "num div 4294967296 < 2097152"
    "0 \<le> num mod 4294967296" "num mod 4294967296 < 4294967296"
    "num div 4294967296 * 4294967296 + num mod 4294967296 = num"
proof -
  show "(num - num mod 4294967296) div 4294967296 = num div 4294967296"
    by (simp add: minus_mod_eq_mult_div)
  show "0 \<le> num div 4294967296" using assms(1) by simp
  show "num div 4294967296 < 2097152"
    using assms(2) by (simp add: MAX_SAFE_INTEGER_def)
  show "0 \<le> num mod 4294967296" "num mod 4294967296 < 4294967296" by simp_all
  show "num div 4294967296 * 4294967296 + num mod 4294967296 = num" by simp
qed


lemma priv_write64_nonneg:
  assumes "0 \<le> n" "n \<le> MAX_SAFE_INTEGER"
  shows "priv_write64 dst n off be
         = Inr (store64 dst off (n div 4294967296) (n mod 4294967296) be, off + 8)"
  using assms by (simp add: priv_write64_def Let_def halves(1) [OF assms])

lemma priv_write64_neg:
  assumes "n < 0" "- MAX_SAFE_INTEGER \<le> n"
  shows "priv_write64 dst n off be
         = Inr (store64 dst off (4294967295 - (- n - 1) div 4294967296)
                  (4294967295 - (- n - 1) mod 4294967296) be, off + 8)"
proof -
  have m: "0 \<le> - n - 1" "- n - 1 \<le> MAX_SAFE_INTEGER" using assms by simp_all
  note h = halves [OF m]
  have "js_shr (js_not ((- n - 1) div 4294967296)) 0 = 4294967295 - (- n - 1) div 4294967296"
    using js_not_shr0 [of "(- n - 1) div 4294967296"] h(2,3) by simp
  moreover have "js_shr (js_not ((- n - 1) mod 4294967296)) 0 = 4294967295 - (- n - 1) mod 4294967296"
    using js_not_shr0 [of "(- n - 1) mod 4294967296"] h(4,5) by simp
  ultimately show ?thesis
    using assms(1) m(2) by (simp add: priv_write64_def Let_def h(1))
qed

lemma priv_readU64_LE:
  assumes "off + 8 \<le> length data" "uint32LE data (off + 4) < 2097152"
  shows "priv_readU64 data off False False
         = Inr (uint32LE data (off + 4) * 4294967296 + uint32LE data off)"
  using assms js_and_high11 [OF uint32LE_bounds, of data "off + 4"]
  by (simp add: priv_readU64_def readUInt32LE_def)

lemma priv_readU64_BE:
  assumes "off + 8 \<le> length data" "uint32BE data off < 2097152"
  shows "priv_readU64 data off False True
         = Inr (uint32BE data off * 4294967296 + uint32BE data (off + 4))"
  using assms js_and_high11 [OF uint32BE_bounds, of data off]
  by (simp add: priv_readU64_def readUInt32BE_def)

lemma priv_read64_LE_pos:
  assumes "off + 8 \<le> length data" "uint32LE data (off + 4) < 2097152"
  shows "priv_read64 data off False False
         = Inr (uint32LE data (off + 4) * 4294967296 + uint32LE data off)"
  using assms js_and_high11 [OF uint32LE_bounds, of data "off + 4"]
    js_and_sign [OF uint32LE_bounds, of data "off + 4"]
  by (simp add: priv_read64_def readUInt32LE_def)

lemma priv_read64_BE_pos:
  assumes "off + 8 \<le> length data" "uint32BE data off < 2097152"
  shows "priv_read64 data off False True
         = Inr (uint32BE data off * 4294967296 + uint32BE data (off + 4))"
  using assms js_and_high11 [OF uint32BE_bounds, of data off]
    js_and_sign [OF uint32BE_bounds, of data off]
  by (simp add: priv_read64_def readUInt32BE_def)

lemma priv_read64_neg_core:
  assumes "0 \<le> hi0" "hi0 < 2097152" "0 \<le> lo0" "lo0 < 4294967296"
    "hi = 4294967295 - hi0" "lo = 4294967295 - lo0"
  shows "(if js_and hi 0x80000000 \<noteq> 0 then
             (let hi = js_shr (js_not hi) 0;
                  lo = js_shr (js_not lo) 0;
                  hi = (if False then js_and hi 0x1fffff else hi) in
              if js_and hi 0xffe00000 \<noteq> 0 then Inl RangeFault
              else Inr (- (hi * 0x100000000 + lo + 1)))
           else
             (let hi = (if False then js_and hi 0x1fffff else hi) in
              if js_and hi 0xffe00000 \<noteq> 0 then Inl RangeFault
              else Inr (hi * 0x100000000 + lo))) = Inr (- (hi0 * 4294967296 + lo0 + 1))"
proof -
  have hb: "0 \<le> hi" "hi < 2 ^ 32" "\<not> hi < 2 ^ 31" and lb: "0 \<le> lo" "lo < 2 ^ 32"
    using assms by simp_all
  have s: "js_and hi 0x80000000 \<noteq> 0" using js_and_sign [OF hb(1,2)] hb(3) by simp
  have nh: "js_shr (js_not hi) 0 = hi0" using js_not_shr0 [OF hb(1,2)] assms(5) by simp
  have nl: "js_shr (js_not lo) 0 = lo0" using js_not_shr0 [OF lb] assms(6) by simp
  have z: "js_and hi0 0xffe00000 = 0" using js_and_high11 [of hi0] assms(1,2) by simp
  show ?thesis by (simp add: s nh nl z Let_def)
qed


lemma unsigned_roundtrip:
  assumes "off + 8 \<le> length dst" "0 \<le> n" "n \<le> MAX_SAFE_INTEGER"
  defines "b \<equiv> store64 dst off (n div 4294967296) (n mod 4294967296)"
  shows "priv_readU64 (b False) off False False = Inr n"
    "priv_readU64 (b True) off False True = Inr n"
    "priv_read64 (b False) off False False = Inr n"
    "priv_read64 (b True) off False True = Inr n"
proof -
  note h = halves [OF assms(2,3)]
  have hi: "0 \<le> n div 4294967296" "n div 4294967296 < 2 ^ 32" using h(2,3) by simp_all
  have lo: "0 \<le> n mod 4294967296" "n mod 4294967296 < 2 ^ 32" by simp_all
  note l = store64_layout [OF assms(1) lo hi, folded b_def]
  have len: "off + 8 \<le> length (b be)" for be using assms(1) l(5) by simp
  show "priv_readU64 (b False) off False False = Inr n"
    using priv_readU64_LE [OF len, of False] h(3,6) by (simp add: l)
  show "priv_readU64 (b True) off False True = Inr n"
    using priv_readU64_BE [OF len, of True] h(3,6) by (simp add: l)
  show "priv_read64 (b False) off False False = Inr n"
    using priv_read64_LE_pos [OF len, of False] h(3,6) by (simp add: l)
  show "priv_read64 (b True) off False True = Inr n"
    using priv_read64_BE_pos [OF len, of True] h(3,6) by (simp add: l)
qed

lemma negative_roundtrip:
  assumes "off + 8 \<le> length dst" "n < 0" "- MAX_SAFE_INTEGER \<le> n"
  defines "b \<equiv> store64 dst off (4294967295 - (- n - 1) div 4294967296)
                  (4294967295 - (- n - 1) mod 4294967296)"
  shows "priv_read64 (b False) off False False = Inr n"
    "priv_read64 (b True) off False True = Inr n"
proof -
  have m: "0 \<le> - n - 1" "- n - 1 \<le> MAX_SAFE_INTEGER" using assms(2,3) by simp_all
  note h = halves [OF m]
  have hi: "0 \<le> 4294967295 - (- n - 1) div 4294967296" "4294967295 - (- n - 1) div 4294967296 < 2 ^ 32"
    using h(2,3) by simp_all
  have lo: "0 \<le> 4294967295 - (- n - 1) mod 4294967296" "4294967295 - (- n - 1) mod 4294967296 < 2 ^ 32"
    using h(4,5) by simp_all
  note l = store64_layout [OF assms(1) lo hi, folded b_def]
  have len: "off + 8 \<le> length (b be)" for be using assms(1) l(5) by simp
  have r: "- ((- n - 1) div 4294967296 * 4294967296 + (- n - 1) mod 4294967296 + 1) = n"
    using h(6) by simp
  show "priv_read64 (b False) off False False = Inr n"
    using len [of False] priv_read64_neg_core [OF h(2-5) refl refl]
    by (simp add: priv_read64_def readUInt32LE_def l r del: mult_div_mod_eq div_mult_mod_eq)
  show "priv_read64 (b True) off False True = Inr n"
    using len [of True] priv_read64_neg_core [OF h(2-5) refl refl]
    by (simp add: priv_read64_def readUInt32BE_def l r del: mult_div_mod_eq div_mult_mod_eq)
qed

subsection \<open>Varint-A: the decoder by tag\<close>

lemma js_or_shl8:
  assumes "0 \<le> a" "a < 256" "0 \<le> b" "b < 256"
  shows "js_or a (js_shl b 8) = a + 256 * b"
proof -
  have s: "js_shl b 8 = 256 * b"
    using assms(3,4) by (simp add: js_shl_def toInt32_small push_bit_eq_mult)
  have t: "toInt32 a = a" "toInt32 (256 * b) = 256 * b"
    using assms by (simp_all add: toInt32_small)
  have "take_bit 8 a AND push_bit 8 b = 0"
    by (rule bit_eqI) (auto simp add: bit_simps)
  then have "a AND 256 * b = 0"
    using assms(1,2) by (simp add: take_bit_int_eq_self push_bit_eq_mult mult.commute)
  then have "a + 256 * b = a OR 256 * b" by (rule disjunctive_add_eq_or)
  then show ?thesis by (simp add: js_or_def s t)
qed

lemma bitLength_mag_le: "0 \<le> m \<Longrightarrow> bitLength_mag m \<le> k \<longleftrightarrow> m < 2 ^ k"
proof (induction k arbitrary: m)
  case 0
  then show ?case by (subst bitLength_mag.simps) auto
next
  case (Suc k)
  have "bitLength_mag m \<le> Suc k \<longleftrightarrow> m \<le> 0 \<or> bitLength_mag (m div 2) \<le> k"
    by (subst bitLength_mag.simps) simp
  also have "\<dots> \<longleftrightarrow> m \<le> 0 \<or> m div 2 < 2 ^ k"
    using Suc.IH [of "m div 2"] Suc.prems by simp
  also have "\<dots> \<longleftrightarrow> m < 2 ^ Suc k"
    using Suc.prems by auto
  finally show ?case .
qed

lemma bitLength_le: "0 \<le> v \<Longrightarrow> bitLength v \<le> k \<longleftrightarrow> v < 2 ^ k"
  by (simp add: bitLength_def bitLength_mag_le)

lemma BN_le_step:
  assumes "off < length data"
  shows "BN_le (take (Suc k) (drop off data)) = u8 data off + 0x100 * BN_le (take k (drop (Suc off) data))"
  using assms by (simp add: Cons_nth_drop_Suc [symmetric] u8_def)

lemma readU64BN_halves:
  assumes "off + 8 \<le> length data"
  shows "readU64BN data off = uint32LE data (off + 4) * 0x100000000 + uint32LE data off"
proof -
  have e: "(8::nat) = Suc (Suc (Suc (Suc (Suc (Suc (Suc (Suc 0)))))))" by simp
  have l: "off < length data" "Suc off < length data" "Suc (Suc off) < length data"
    "Suc (Suc (Suc off)) < length data" "Suc (Suc (Suc (Suc off))) < length data"
    "Suc (Suc (Suc (Suc (Suc off)))) < length data"
    "Suc (Suc (Suc (Suc (Suc (Suc off))))) < length data"
    "Suc (Suc (Suc (Suc (Suc (Suc (Suc off)))))) < length data"
    using assms by simp_all
  have i: "off + 1 = Suc off" "off + 2 = Suc (Suc off)" "off + 3 = Suc (Suc (Suc off))"
    "off + 4 = Suc (Suc (Suc (Suc off)))" "off + 4 + 1 = Suc (Suc (Suc (Suc (Suc off))))" 
    "off + 4 + 2 = Suc (Suc (Suc (Suc (Suc (Suc off)))))" 
    "off + 4 + 3 = Suc (Suc (Suc (Suc (Suc (Suc (Suc off))))))" 
    by simp_all
  show ?thesis
    unfolding readU64BN_def e uint32LE_def i
    by (simp only: BN_le_step l take_0 BN_le.simps) (simp add: numeral_eq_Suc)
qed


lemma readU64_halves:
  assumes "off + 8 \<le> length data" "o4 = off + 4"
  shows "readU64 data off
         = (if MAX_SAFE_INTEGER < uint32LE data o4 * 0x100000000 + uint32LE data off
            then Inl RangeFault
            else Inr (uint32LE data o4 * 0x100000000 + uint32LE data off))"
proof -
  note h = uint32LE_bounds [of data "off + 4"] and l = uint32LE_bounds [of data off]
  have "MAX_SAFE_INTEGER < uint32LE data (off + 4) * 0x100000000 + uint32LE data off
        \<longleftrightarrow> \<not> uint32LE data (off + 4) < 2097152"
    using h l unfolding MAX_SAFE_INTEGER_def by auto
  then show ?thesis
    using assms js_and_high11 [OF h]
    by (simp add: readU64_def priv_readU64_def readUInt32LE_def del: linorder_not_less)
qed

lemma readVarint_fd:
  assumes "u8 data off = 0xfd" "off + 3 \<le> length data"
  shows "readVarint data off
         = (if u8 data (off + 1) + 0x100 * u8 data (off + 2) < 0xfd then Inl RangeFault
            else Inr (Varint 3 (u8 data (off + 1) + 0x100 * u8 data (off + 2))))"
  using assms js_or_shl8 [OF u8_bounds(1,2) u8_bounds(1,2), of data "off + 1" data "off + 2"]
  by (simp add: readVarint_def Let_def)

lemma readVarint_fe:
  assumes "u8 data off = 0xfe" "off + 5 \<le> length data"
  shows "readVarint data off
         = (if uint32LE data (off + 1) \<le> 0xffff then Inl RangeFault
            else Inr (Varint 5 (uint32LE data (off + 1))))"
  using assms by (simp add: readVarint_def readUInt32LE_def)

lemma readVarint_ff:
  assumes "u8 data off = 0xff" "off + 9 \<le> length data"
  shows "readVarint data off
         = (if uint32LE data (off + 5) * 0x100000000 + uint32LE data (off + 1) \<le> 0xffffffff
               \<or> MAX_SAFE_INTEGER < uint32LE data (off + 5) * 0x100000000 + uint32LE data (off + 1)
            then Inl RangeFault
            else Inr (Varint 9 (uint32LE data (off + 5) * 0x100000000 + uint32LE data (off + 1))))"
proof -
  have r: "readU64 data (Suc off)
         = (if MAX_SAFE_INTEGER < uint32LE data (off + 5) * 0x100000000 + uint32LE data (Suc off)
            then Inl RangeFault
            else Inr (uint32LE data (off + 5) * 0x100000000 + uint32LE data (Suc off)))"
    by (rule readU64_halves) (use assms(2) in simp_all)
  show ?thesis
    using assms by (simp add: readVarint_def r)
qed

lemma readVarintBN_ff:
  assumes "u8 data off = 0xff" "off + 9 \<le> length data"
  shows "readVarintBN data off
         = (if uint32LE data (off + 5) * 0x100000000 + uint32LE data (off + 1) \<le> 0xffffffff
            then Inl RangeFault
            else Inr (Varint 9 (uint32LE data (off + 5) * 0x100000000 + uint32LE data (off + 1))))"
proof -
  have r: "readU64BN data (Suc off)
           = uint32LE data (off + 5) * 0x100000000 + uint32LE data (Suc off)"
    using readU64BN_halves [of "Suc off" data] assms(2) by (simp add: add.commute)
  have p: "0 \<le> uint32LE data (off + 5) * 0x100000000 + uint32LE data (off + 1)"
    using uint32LE_bounds(1) [of data "off + 5"] uint32LE_bounds(1) [of data "off + 1"] by simp
  have "bitLength (uint32LE data (off + 5) * 0x100000000 + uint32LE data (off + 1)) \<le> 32
        \<longleftrightarrow> uint32LE data (off + 5) * 0x100000000 + uint32LE data (off + 1) \<le> 0xffffffff"
    using bitLength_le [OF p, of 32] by auto
  then show ?thesis
    using assms by (simp add: readVarintBN_def r Let_def not_less)
qed

lemma readVarintBN_other:
  assumes "u8 data off \<noteq> 0xff"
  shows "readVarintBN data off = readVarint data off"
  using assms by (simp add: readVarintBN_def readVarint_def)

subsection \<open>Varint-B: the digits written and their decoding\<close>

lemma js_and_80: "js_and y 0x80 = 128 * (y mod 256 div 128)"
proof -
  have c: "toInt32 0x80 = mask 8 AND NOT (mask 7)"
    by (simp add: toInt32_def signed_take_bit_eq_take_bit_shift mask_eq_exp_minus_1 not_int_def)
  have "js_and y 0x80 = take_bit 8 (toInt32 y) AND NOT (mask 7)"
    unfolding js_and_def c by (simp add: take_bit_eq_mask and.assoc)
  also have "\<dots> = take_bit 8 y AND NOT (mask 7)"
    by (simp add: toInt32_def take_bit_signed_take_bit)
  also have "\<dots> = 128 * (y mod 256 div 128)"
    by (simp add: and_not_mask_int push_bit_eq_mult drop_bit_eq_div take_bit_eq_mod)
  finally show ?thesis .
qed

lemma js_or_flag:
  assumes "0 \<le> x" "x < 128"
  shows "js_or x 0x80 = x + 128" "js_or x 0x00 = x"
proof -
  have t: "toInt32 x = x" "toInt32 0x80 = 0x80" "toInt32 0 = 0"
    using assms by (simp_all add: toInt32_small)
  have "x AND 128 = 0"
    using js_and_80 [of x] assms unfolding js_and_def t by simp
  then have "x + 128 = x OR 128" by (rule disjunctive_add_eq_or)
  then show "js_or x 0x80 = x + 128" by (simp add: js_or_def t)
  show "js_or x 0x00 = x" by (simp add: js_or_def t)
qed

lemma readVarint2_loop_shift:
  "readVarint2_loop (xs @ data) (length xs + off) sz num = readVarint2_loop data off sz num"
proof (induction data off sz num rule: readVarint2_loop.induct)
  case (1 data off sz num)
  show ?case
    apply (subst readVarint2_loop.simps)
    apply (subst (2) readVarint2_loop.simps)
    using 1 by (simp add: u8_def nth_append Let_def add.assoc)
qed

lemma emit_layout:
  assumes "off + len < length dst" "len < length tmp"
  shows "emit dst off tmp len
         = (take off dst @ map word_of_int (rev (take (Suc len) tmp)) @ drop (off + len + 1) dst,
            off + len + 1)"
  using assms
proof (induction len arbitrary: dst off)
  case 0
  then show ?case
    by (simp add: put_def upd_conv_take_nth_drop take_Suc_conv_app_nth)
next
  case (Suc len)
  have l: "off + 1 + len < length (put dst off (tmp ! Suc len))" "len < length tmp"
    using Suc.prems by simp_all
  have t: "take (Suc (Suc len)) tmp = take (Suc len) tmp @ [tmp ! Suc len]"
    using Suc.prems(2) by (simp add: take_Suc_conv_app_nth)
  have "emit dst off tmp (Suc len) = emit (put dst off (tmp ! Suc len)) (off + 1) tmp len"
    by simp
  also have "\<dots> = (take (off + 1) (put dst off (tmp ! Suc len))
                      @ map word_of_int (rev (take (Suc len) tmp))
                      @ drop (off + 1 + len + 1) (put dst off (tmp ! Suc len)),
                    off + 1 + len + 1)"
    by (rule Suc.IH [OF l])
  also have "\<dots> = (take off dst @ map word_of_int (rev (take (Suc (Suc len)) tmp))
                      @ drop (off + Suc len + 1) dst,
                    off + Suc len + 1)"
    using Suc.prems(1) by (simp add: t put_def take_Suc_conv_app_nth)
  finally show ?case .
qed


lemma varint2_induct [case_names step]:
  assumes "\<And>num. (\<not> num \<le> 0x7f \<Longrightarrow> P ((num - num mod 0x80) div 0x80 - 1)) \<Longrightarrow> P num"
  shows "P (num :: int)"
proof -
  have "P n" for n and sz :: nat
  proof (induction n sz rule: sizeVarint2_loop.induct)
    case (1 n sz)
    show ?case by (rule assms) (use 1 in simp)
  qed
  then show ?thesis .
qed

lemma varint2_tmp_acc:
  "varint2_tmp num len tmp
   = (tmp @ fst (varint2_tmp num len []), snd (varint2_tmp num len []))"
proof (induction num arbitrary: len tmp rule: varint2_induct)
  case (step num)
  let ?d = "js_or (js_and num 0x7f) (if len \<noteq> 0 then 0x80 else 0x00)"
  let ?n = "(num - num mod 0x80) div 0x80 - 1"
  show ?case
  proof (cases "num \<le> 0x7f")
    case True
    then show ?thesis by (simp add: varint2_tmp.simps [of num])
  next
    case False
    note ih = step [OF False]
    have "varint2_tmp num len tmp = varint2_tmp ?n (len + 1) (tmp @ [?d])"
      using False by (simp add: varint2_tmp.simps [of num] Let_def)
    also have "\<dots> = ((tmp @ [?d]) @ fst (varint2_tmp ?n (len + 1) []),
                       snd (varint2_tmp ?n (len + 1) []))"
      by (rule ih)
    finally have A: "varint2_tmp num len tmp = (tmp @ ?d # fst (varint2_tmp ?n (len + 1) []),
                       snd (varint2_tmp ?n (len + 1) []))"
      by simp
    have "varint2_tmp num len [] = varint2_tmp ?n (len + 1) ([] @ [?d])"
      using False by (simp add: varint2_tmp.simps [of num] Let_def)
    also have "\<dots> = (([] @ [?d]) @ fst (varint2_tmp ?n (len + 1) []),
                       snd (varint2_tmp ?n (len + 1) []))"
      by (rule ih)
    finally have B: "varint2_tmp num len [] = (?d # fst (varint2_tmp ?n (len + 1) []),
                       snd (varint2_tmp ?n (len + 1) []))"
      by simp
    show ?thesis unfolding A B by simp
  qed
qed

lemma digits_unfold:
  "varint2_tmp num len []
   = (if num \<le> 0x7f then ([js_or (js_and num 0x7f) (if len \<noteq> 0 then 0x80 else 0x00)], len)
      else (js_or (js_and num 0x7f) (if len \<noteq> 0 then 0x80 else 0x00)
              # fst (varint2_tmp ((num - num mod 0x80) div 0x80 - 1) (len + 1) []),
            snd (varint2_tmp ((num - num mod 0x80) div 0x80 - 1) (len + 1) [])))"
proof (cases "num \<le> 0x7f")
  case True
  then show ?thesis by (simp add: varint2_tmp.simps [of num])
next
  case False
  let ?d = "js_or (js_and num 0x7f) (if len \<noteq> 0 then 0x80 else 0x00)"
  let ?n = "(num - num mod 0x80) div 0x80 - 1"
  have "varint2_tmp num len [] = varint2_tmp ?n (len + 1) [?d]"
    using False by (simp add: varint2_tmp.simps [of num] Let_def)
  also have "\<dots> = ([?d] @ fst (varint2_tmp ?n (len + 1) []), snd (varint2_tmp ?n (len + 1) []))"
    by (rule varint2_tmp_acc)
  finally show ?thesis using False by simp
qed

lemma digits_len:
  "Suc (snd (varint2_tmp num len [])) = len + length (fst (varint2_tmp num len []))"
proof (induction num arbitrary: len rule: varint2_induct)
  case (step num)
  show ?case
  proof (cases "num \<le> 0x7f")
    case True
    then show ?thesis by (simp add: digits_unfold [of num])
  next
    case False
    show ?thesis
      using step [OF False, of "len + 1"] by (simp add: digits_unfold [of num len] False)
  qed
qed

lemma sizeVarint2_loop_digits:
  "sizeVarint2_loop num sz = sz + length (fst (varint2_tmp num len []))"
proof (induction num arbitrary: len sz rule: varint2_induct)
  case (step num)
  show ?case
  proof (cases "num \<le> 0x7f")
    case True
    then show ?thesis
      by (simp add: digits_unfold [of num] sizeVarint2_loop.simps [of num])
  next
    case False
    have "sizeVarint2_loop num sz = sizeVarint2_loop ((num - num mod 0x80) div 0x80 - 1) (sz + 1)"
      using False by (simp add: sizeVarint2_loop.simps [of num] Let_def)
    also have "\<dots> = sz + 1 + length (fst (varint2_tmp ((num - num mod 0x80) div 0x80 - 1) (len + 1) []))"
      by (rule step [OF False])
    finally show ?thesis
      by (simp add: digits_unfold [of num len] False)
  qed
qed


lemma readVarint2_loop_Cons:
  "readVarint2_loop (c # ys) (Suc off) sz num = readVarint2_loop ys off sz num"
  using readVarint2_loop_shift [of "[c]" ys off sz num] by simp

lemma uint_byte: "0 \<le> v \<Longrightarrow> v < 256 \<Longrightarrow> uint (word_of_int v :: byte) = v"
  by (simp add: uint_word_of_int take_bit_eq_mod)

lemma loop_step_cont:
  assumes "acc < 0x3fffffffffff" "uint c = x + 128" "0 \<le> x" "x < 128"
  shows "readVarint2_loop (c # ys) 0 sz acc
         = readVarint2_loop ys 0 (sz + 1) (acc * 128 + x + 1)"
proof -
  have u: "u8 (c # ys) 0 = x + 128"
    using assms(2) by (simp add: u8_def)
  have m: "x mod 128 = x" "(x + 128) mod 256 div 128 = 1"
    using assms(3,4) by simp_all
  show ?thesis
    by (subst readVarint2_loop.simps)
      (simp add: u js_and_7f js_and_80 m assms(1) Let_def readVarint2_loop_Cons)
qed

lemma loop_step_last:
  assumes "acc < 0x3fffffffffff" "uint c = x" "0 \<le> x" "x < 128"
  shows "readVarint2_loop (c # ys) 0 sz acc = Inr (Varint (sz + 1) (acc * 128 + x))"
proof -
  have u: "u8 (c # ys) 0 = x"
    using assms(2) by (simp add: u8_def)
  have m: "x mod 128 = x" "x mod 256 div 128 = 0"
    using assms(3,4) by simp_all
  show ?thesis
    by (subst readVarint2_loop.simps)
      (simp add: u js_and_7f js_and_80 m assms(1) Let_def)
qed

lemma next_num:
  assumes "\<not> num \<le> (0x7f :: int)"
  shows "(num - num mod 0x80) div 0x80 - 1 = num div 128 - 1" "0 \<le> num div 128 - 1"
    "(num div 128 - 1) div 128 < num div 128"
proof -
  show "(num - num mod 0x80) div 0x80 - 1 = num div 128 - 1"
    by (simp add: minus_mod_eq_mult_div)
  show "0 \<le> num div 128 - 1" using assms by simp
  have "(num div 128 - 1) div 128 \<le> num div 128 - 1" using assms by simp
  then show "(num div 128 - 1) div 128 < num div 128" by simp
qed

lemma decode_digits:
  assumes "0 \<le> num" "num div 128 < 0x3fffffffffff" "len \<noteq> 0"
  shows "readVarint2_loop (map word_of_int (rev (fst (varint2_tmp num len []))) @ ys) 0 sz 0
         = readVarint2_loop ys 0 (sz + length (fst (varint2_tmp num len []))) (num + 1)"
  using assms
proof (induction num arbitrary: len sz ys rule: varint2_induct)
  case (step num)
  define c :: byte where "c = word_of_int (num mod 128 + 128)"
  have x: "0 \<le> num mod 128" "num mod 128 < 128" by simp_all
  have d: "js_or (js_and num 0x7f) (if len \<noteq> 0 then 0x80 else 0x00) = num mod 128 + 128"
    using step.prems(3) js_or_flag(1) [OF x] by (simp add: js_and_7f)
  have c: "uint c = num mod 128 + 128"
    unfolding c_def by (rule uint_byte) (use x in simp_all)
  show ?case
  proof (cases "num \<le> 0x7f")
    case True
    then have n: "num mod 128 = num" using step.prems(1) by simp
    have ds: "fst (varint2_tmp num len []) = [num mod 128 + 128]"
      by (simp only: digits_unfold [of num len] d True if_True fst_conv)
    show ?thesis
      using loop_step_cont [OF _ c x, of 0 ys sz] by (simp add: ds c_def n)
  next
    case False
    note nn = next_num [OF False]
    let ?ds = "fst (varint2_tmp (num div 128 - 1) (len + 1) [])"
    have ds: "fst (varint2_tmp num len []) = (num mod 128 + 128) # ?ds"
      by (simp only: digits_unfold [of num len] d False if_False fst_conv nn(1))
    have "readVarint2_loop (map word_of_int (rev (fst (varint2_tmp num len []))) @ ys) 0 sz 0
          = readVarint2_loop (map word_of_int (rev ?ds) @ (c # ys)) 0 sz 0"
      by (simp add: ds c_def)
    also have "\<dots> = readVarint2_loop (c # ys) 0 (sz + length ?ds) (num div 128 - 1 + 1)"
      using step.IH [OF False, of "len + 1" "c # ys" sz] nn step.prems(2) by simp
    also have "\<dots> = readVarint2_loop ys 0 (sz + length ?ds + 1)
                        ((num div 128 - 1 + 1) * 128 + num mod 128 + 1)"
      by (rule loop_step_cont [OF _ c x]) (use step.prems(2) in simp)
    also have "\<dots> = readVarint2_loop ys 0 (sz + length (fst (varint2_tmp num len []))) (num + 1)"
      by (simp add: ds)
    finally show ?thesis .
  qed
qed

lemma decode_all_digits:
  assumes "0 \<le> num" "num div 128 < 0x3fffffffffff"
  shows "readVarint2_loop (map word_of_int (rev (fst (varint2_tmp num 0 []))) @ ys) 0 0 0
         = Inr (Varint (length (fst (varint2_tmp num 0 []))) num)"
proof -
  define c :: byte where "c = word_of_int (num mod 128)"
  have x: "0 \<le> num mod 128" "num mod 128 < 128" by simp_all
  have d: "js_or (js_and num 0x7f) (if (0::nat) \<noteq> 0 then 0x80 else 0x00) = num mod 128"
    using js_or_flag(2) [OF x] by (simp add: js_and_7f)
  have c: "uint c = num mod 128"
    unfolding c_def by (rule uint_byte) (use x in simp_all)
  show ?thesis
  proof (cases "num \<le> 0x7f")
    case True
    then have n: "num mod 128 = num" using assms(1) by simp
    have ds: "fst (varint2_tmp num 0 []) = [num mod 128]"
      by (simp only: digits_unfold [of num 0] d True if_True fst_conv)
    show ?thesis
      using loop_step_last [OF _ c x, of 0 ys 0] by (simp add: ds c_def n)
  next
    case False
    note nn = next_num [OF False]
    let ?ds = "fst (varint2_tmp (num div 128 - 1) (0 + 1) [])"
    have ds: "fst (varint2_tmp num 0 []) = (num mod 128) # ?ds"
      by (simp only: digits_unfold [of num 0] d False if_False fst_conv nn(1))
    have "readVarint2_loop (map word_of_int (rev (fst (varint2_tmp num 0 []))) @ ys) 0 0 0
          = readVarint2_loop (map word_of_int (rev ?ds) @ (c # ys)) 0 0 0"
      by (simp add: ds c_def)
    also have "\<dots> = readVarint2_loop (c # ys) 0 (0 + length ?ds) (num div 128 - 1 + 1)"
      by (rule decode_digits) (use nn assms(2) in simp_all)
    also have "\<dots> = Inr (Varint (0 + length ?ds + 1) ((num div 128 - 1 + 1) * 128 + num mod 128))"
      by (rule loop_step_last [OF _ c x]) (use assms(2) in simp)
    also have "\<dots> = Inr (Varint (length (fst (varint2_tmp num 0 []))) num)"
      by (simp add: ds)
    finally show ?thesis .
  qed
qed


lemma sizeVarint2_digits: "sizeVarint2 n = length (fst (varint2_tmp n 0 []))"
  using sizeVarint2_loop_digits [of n 0 0] by (simp add: sizeVarint2_def)

lemma writeVarint2_layout:
  assumes "off + sizeVarint2 n \<le> length dst"
  shows "writeVarint2 dst n (Some off)
         = Inr (take off dst @ map word_of_int (rev (fst (varint2_tmp n 0 [])))
                  @ drop (off + sizeVarint2 n) dst,
                off + sizeVarint2 n)"
proof -
  obtain ds len where v: "varint2_tmp n 0 [] = (ds, len)" by (cases "varint2_tmp n 0 []")
  have l: "Suc len = length ds" using digits_len [of n 0] by (simp add: v)
  have s: "sizeVarint2 n = Suc len" using l by (simp add: sizeVarint2_digits v)
  have e: "emit dst off ds len
           = (take off dst @ map word_of_int (rev (take (Suc len) ds)) @ drop (off + len + 1) dst,
              off + len + 1)"
    by (rule emit_layout) (use assms l s in simp_all)
  show ?thesis
    using assms by (simp add: writeVarint2_def v s e l [symmetric])
qed

lemma varint2_roundtrip_general:
  assumes "0 \<le> n" "n div 128 < 0x3fffffffffff" "off + sizeVarint2 n \<le> length dst"
  shows "\<exists>b. writeVarint2 dst n (Some off) = Inr (b, off + sizeVarint2 n)
             \<and> readVarint2 b off = Inr (Varint (sizeVarint2 n) n)"
proof -
  let ?bytes = "map word_of_int (rev (fst (varint2_tmp n 0 []))) :: byte list"
  let ?b = "take off dst @ ?bytes @ drop (off + sizeVarint2 n) dst"
  have o: "length (take off dst) = off" using assms(3) by simp
  have "readVarint2 ?b off = readVarint2_loop (take off dst @ (?bytes @ drop (off + sizeVarint2 n) dst))
                               (length (take off dst) + 0) 0 0"
    by (simp only: readVarint2_def o add_0_right)
  also have "\<dots> = readVarint2_loop (?bytes @ drop (off + sizeVarint2 n) dst) 0 0 0"
    by (rule readVarint2_loop_shift)
  also have "\<dots> = Inr (Varint (length (fst (varint2_tmp n 0 []))) n)"
    by (rule decode_all_digits [OF assms(1,2)])
  finally have "readVarint2 ?b off = Inr (Varint (sizeVarint2 n) n)"
    by (simp only: sizeVarint2_digits)
  then show ?thesis
    using writeVarint2_layout [OF assms(3)] by blast
qed

subsection \<open>Varint-B: the range of the native decoder\<close>

lemma readVarint2_loop_range:
  assumes "0 \<le> num" "readVarint2_loop data off sz num = Inr v"
  shows "0 \<le> value_v v \<and> value_v v \<le> MAX_SAFE_INTEGER - 128"
  using assms
proof (induction data off sz num rule: readVarint2_loop.induct)
  case (1 data off sz num)
  let ?d = "js_and (u8 data off) 0x7f"
  have d: "0 \<le> ?d" "?d \<le> 127"
    using pos_mod_bound [of 128 "u8 data off"] by (simp_all add: js_and_7f)
  from "1.prems"(2) have "off < length data \<and> num < 0x3fffffffffff"
    by (subst (asm) readVarint2_loop.simps) (simp add: Let_def split: if_splits)
  then have b: "off < length data" "num < 0x3fffffffffff" by simp_all
  show ?case
  proof (cases "js_and (u8 data off) 0x80 = 0")
    case True
    with "1.prems"(2) b have "v = Varint (sz + 1) (num * 0x80 + ?d)"
      by (subst (asm) readVarint2_loop.simps) (simp add: Let_def)
    then show ?thesis
      using d b(2) "1.prems"(1) by (simp add: Varint_def MAX_SAFE_INTEGER_def)
  next
    case False
    with "1.prems"(2) b have r: "readVarint2_loop data (off + 1) (sz + 1) (num * 0x80 + ?d + 1) = Inr v"
      by (subst (asm) readVarint2_loop.simps) (simp add: Let_def)
    show ?thesis
      by (rule "1.IH" [OF _ refl refl _ refl False _ r]) (use b d "1.prems"(1) in simp_all)
  qed
qed

subsection \<open>Bounds checks of the decoders and of the writers\<close>











section \<open>Properties of the codec\<close>

text \<open>
  Claim C1 says that on integers of at most 53 bits the big-integer Varint-B paths agree
  with the native ones. The code does not: \<open>sizeVarint2BN\<close> delegates to \<open>sizeVarint\<close>
  (the compact-size length) instead of \<open>sizeVarint2\<close>, and \<open>writeVarint2BN\<close> calls
  \<open>writeVarint2(dst, num.toNumber())\<close> without the offset, so that the bounds assertion of
  \<open>writeVarint2\<close> fails on every input. At \<open>num = 128\<close>, a two-byte buffer and offset 0:
\<close>

theorem varint2BN_delegation_differs:
  "bitLength 128 \<le> 53
   \<and> fst (sizeVarint2BN 128) = 1 \<and> sizeVarint2 128 = 2
   \<and> fst (writeVarint2BN [0, 0] 128 0) = Inl BoundsFault
   \<and> writeVarint2 [0, 0] 128 (Some 0) = Inr ([0x80, 0x00], 2)"
  by code_simp

text \<open>
  Claim C2 says that \<open>readVarint\<close> and \<open>readVarintBN\<close> raise a RangeFault on the three
  non-minimal forms and return the decoded pair otherwise. The rejections hold. The
  ``otherwise'' fails for \<open>readVarint\<close>: behind the tag \<open>0xff\<close> the payload is read by
  \<open>readU64\<close>, which raises a RangeFault above \<open>2^53 - 1\<close>. The nine bytes below are the
  minimal encoding of \<open>2^53\<close>; \<open>readVarintBN\<close> returns the pair, \<open>readVarint\<close> does not.
\<close>

theorem readVarint_rejects_minimal_encoding:
  "u8 [0xff, 0, 0, 0, 0, 0, 0, 0x20, 0] 0 = 0xff
   \<and> uint32LE [0xff, 0, 0, 0, 0, 0, 0, 0x20, 0] 5 * 0x100000000
       + uint32LE [0xff, 0, 0, 0, 0, 0, 0, 0x20, 0] 1 = 0x20000000000000
   \<and> \<not> (0x20000000000000 :: int) \<le> 0xffffffff
   \<and> readVarint [0xff, 0, 0, 0, 0, 0, 0, 0x20, 0] 0 = Inl RangeFault
   \<and> readVarintBN [0xff, 0, 0, 0, 0, 0, 0, 0x20, 0] 0 = Inr (Varint 9 0x20000000000000)"
  by code_simp

text \<open>
  Claim C2, amended. On a buffer that holds the whole encoding, \<open>readVarint\<close> and
  \<open>readVarintBN\<close> raise a RangeFault when the tag is \<open>0xfd\<close> and the 2-byte little-endian
  payload is below \<open>0xfd\<close>, when the tag is \<open>0xfe\<close> and the 4-byte payload is at most
  \<open>0xffff\<close>, and when the tag is \<open>0xff\<close> and the 8-byte payload is at most \<open>0xffffffff\<close>;
  \<open>readVarint\<close> raises a RangeFault as well when the 8-byte payload exceeds \<open>2^53 - 1\<close>;
  in every other case the pair of the size (1, 3, 5 or 9) and the value is returned.
\<close>

theorem readVarint_canonical:
  assumes "off < length data"
  shows
    "(u8 data off = 0xfd \<and> off + 3 \<le> length data \<longrightarrow>
        (let p = u8 data (off + 1) + 0x100 * u8 data (off + 2);
             r = (if p < 0xfd then Inl RangeFault else Inr (Varint 3 p))
         in readVarint data off = r \<and> readVarintBN data off = r))
     \<and> (u8 data off = 0xfe \<and> off + 5 \<le> length data \<longrightarrow>
        (let p = uint32LE data (off + 1);
             r = (if p \<le> 0xffff then Inl RangeFault else Inr (Varint 5 p))
         in readVarint data off = r \<and> readVarintBN data off = r))
     \<and> (u8 data off = 0xff \<and> off + 9 \<le> length data \<longrightarrow>
        (let p = uint32LE data (off + 5) * 0x100000000 + uint32LE data (off + 1)
         in readVarint data off
              = (if p \<le> 0xffffffff \<or> MAX_SAFE_INTEGER < p then Inl RangeFault
                 else Inr (Varint 9 p))
            \<and> readVarintBN data off
              = (if p \<le> 0xffffffff then Inl RangeFault else Inr (Varint 9 p))))
     \<and> (u8 data off < 0xfd \<longrightarrow>
        readVarint data off = Inr (Varint 1 (u8 data off))
        \<and> readVarintBN data off = Inr (Varint 1 (u8 data off)))"
proof (intro conjI impI)
  assume a: "u8 data off = 0xfd \<and> off + 3 \<le> length data"
  then have t: "u8 data off = 0xfd" and l: "off + 3 \<le> length data" by simp_all
  have n: "u8 data off \<noteq> 0xff" using t by simp
  show "let p = u8 data (off + 1) + 0x100 * u8 data (off + 2);
                 r = (if p < 0xfd then Inl RangeFault else Inr (Varint 3 p))
             in readVarint data off = r \<and> readVarintBN data off = r"
    unfolding Let_def readVarintBN_other [OF n] readVarint_fd [OF t l] by simp
next
  assume a: "u8 data off = 0xfe \<and> off + 5 \<le> length data"
  then have t: "u8 data off = 0xfe" and l: "off + 5 \<le> length data" by simp_all
  have n: "u8 data off \<noteq> 0xff" using t by simp
  show "let p = uint32LE data (off + 1);
                 r = (if p \<le> 0xffff then Inl RangeFault else Inr (Varint 5 p))
             in readVarint data off = r \<and> readVarintBN data off = r"
    unfolding Let_def readVarintBN_other [OF n] readVarint_fe [OF t l] by simp
next
  assume a: "u8 data off = 0xff \<and> off + 9 \<le> length data"
  then show "let p = uint32LE data (off + 5) * 0x100000000 + uint32LE data (off + 1)
         in readVarint data off
              = (if p \<le> 0xffffffff \<or> MAX_SAFE_INTEGER < p then Inl RangeFault
                 else Inr (Varint 9 p))
            \<and> readVarintBN data off
              = (if p \<le> 0xffffffff then Inl RangeFault else Inr (Varint 9 p))"
    unfolding Let_def using readVarint_ff [of data off] readVarintBN_ff [of data off] by blast
next
  assume a: "u8 data off < 0xfd"
  then show "readVarint data off = Inr (Varint 1 (u8 data off))"
    using assms by (simp add: readVarint_def)
  with a show "readVarintBN data off = Inr (Varint 1 (u8 data off))"
    by (simp add: readVarintBN_other)
qed

theorem readVarint_canonical_witness:
  "readVarint [0xfd, 0xfc, 0x00] 0 = Inl RangeFault
   \<and> readVarintBN [0xfd, 0xfc, 0x00] 0 = Inl RangeFault
   \<and> readVarint [0xfd, 0x2c, 0x01] 0 = Inr (Varint 3 300)
   \<and> readVarint [0xfe, 0xff, 0xff, 0x00, 0x00] 0 = Inl RangeFault
   \<and> readVarint [0xfe, 0x00, 0x00, 0x01, 0x00] 0 = Inr (Varint 5 0x10000)
   \<and> readVarint [0xff, 0xff, 0xff, 0xff, 0xff, 0, 0, 0, 0] 0 = Inl RangeFault
   \<and> readVarintBN [0xff, 0xff, 0xff, 0xff, 0xff, 0, 0, 0, 0] 0 = Inl RangeFault
   \<and> readVarint [0xff, 0, 0, 0, 0, 1, 0, 0, 0] 0 = Inr (Varint 9 0x100000000)
   \<and> readVarintBN [0xff, 0, 0, 0, 0, 0, 0, 0, 0x80] 0 = Inr (Varint 9 0x8000000000000000)
   \<and> readVarint [0xfc] 0 = Inr (Varint 1 0xfc)"
  using readVarint_canonical [of 0 "[0xfd, 0xfc, 0x00]"]
    readVarint_canonical [of 0 "[0xfd, 0x2c, 0x01]"]
    readVarint_canonical [of 0 "[0xfe, 0xff, 0xff, 0x00, 0x00]"]
    readVarint_canonical [of 0 "[0xfe, 0x00, 0x00, 0x01, 0x00]"]
    readVarint_canonical [of 0 "[0xff, 0xff, 0xff, 0xff, 0xff, 0, 0, 0, 0]"]
    readVarint_canonical [of 0 "[0xff, 0, 0, 0, 0, 1, 0, 0, 0]"]
    readVarint_canonical [of 0 "[0xff, 0, 0, 0, 0, 0, 0, 0, 0x80]"]
    readVarint_canonical [of 0 "[0xfc]"]
  by (simp add: u8_def uint32LE_def Let_def MAX_SAFE_INTEGER_def)

text \<open>
  Claim C3. For every integer \<open>n\<close> with \<open>0 \<le> n \<le> 2^53 - 1\<close>, every buffer with at least
  \<open>off + 8\<close> bytes and both byte orders, \<open>writeU64\<close> (\<open>writeU64BE\<close>) returns \<open>off + 8\<close>
  and \<open>readU64\<close> (\<open>readU64BE\<close>) on the written buffer returns \<open>n\<close>; for every \<open>n\<close> with
  \<open>-(2^53 - 1) \<le> n \<le> 2^53 - 1\<close> the same holds of \<open>write64\<close> and \<open>read64\<close>
  (\<open>write64BE\<close> and \<open>read64BE\<close>).
\<close>

theorem fixed64_roundtrip:
  assumes "off + 8 \<le> length dst"
  shows "(0 \<le> n \<and> n \<le> 2 ^ 53 - 1 \<longrightarrow>
            (\<exists>b. writeU64 dst n off = Inr (b, off + 8) \<and> readU64 b off = Inr n)
          \<and> (\<exists>b. writeU64BE dst n off = Inr (b, off + 8) \<and> readU64BE b off = Inr n))
       \<and> (- (2 ^ 53 - 1) \<le> n \<and> n \<le> 2 ^ 53 - 1 \<longrightarrow>
            (\<exists>b. write64 dst n off = Inr (b, off + 8) \<and> read64 b off = Inr n)
          \<and> (\<exists>b. write64BE dst n off = Inr (b, off + 8) \<and> read64BE b off = Inr n))"
proof (intro conjI impI)
  assume "0 \<le> n \<and> n \<le> 2 ^ 53 - 1"
  then have n: "0 \<le> n" "n \<le> MAX_SAFE_INTEGER" by (simp_all add: MAX_SAFE_INTEGER_def)
  show "\<exists>b. writeU64 dst n off = Inr (b, off + 8) \<and> readU64 b off = Inr n"
    unfolding writeU64_def readU64_def priv_write64_nonneg [OF n]
    using unsigned_roundtrip(1) [OF assms n] by simp
  show "\<exists>b. writeU64BE dst n off = Inr (b, off + 8) \<and> readU64BE b off = Inr n"
    unfolding writeU64BE_def readU64BE_def priv_write64_nonneg [OF n]
    using unsigned_roundtrip(2) [OF assms n] by simp
next
  assume a: "- (2 ^ 53 - 1) \<le> n \<and> n \<le> 2 ^ 53 - 1"
  show "\<exists>b. write64 dst n off = Inr (b, off + 8) \<and> read64 b off = Inr n"
  proof (cases "n < 0")
    case True
    with a have n: "n < 0" "- MAX_SAFE_INTEGER \<le> n" by (simp_all add: MAX_SAFE_INTEGER_def)
    show ?thesis
      unfolding write64_def read64_def priv_write64_neg [OF n]
      using negative_roundtrip(1) [OF assms n] by simp
  next
    case False
    with a have n: "0 \<le> n" "n \<le> MAX_SAFE_INTEGER" by (simp_all add: MAX_SAFE_INTEGER_def)
    show ?thesis
      unfolding write64_def read64_def priv_write64_nonneg [OF n]
      using unsigned_roundtrip(3) [OF assms n] by simp
  qed
  show "\<exists>b. write64BE dst n off = Inr (b, off + 8) \<and> read64BE b off = Inr n"
  proof (cases "n < 0")
    case True
    with a have n: "n < 0" "- MAX_SAFE_INTEGER \<le> n" by (simp_all add: MAX_SAFE_INTEGER_def)
    show ?thesis
      unfolding write64BE_def read64BE_def priv_write64_neg [OF n]
      using negative_roundtrip(2) [OF assms n] by simp
  next
    case False
    with a have n: "0 \<le> n" "n \<le> MAX_SAFE_INTEGER" by (simp_all add: MAX_SAFE_INTEGER_def)
    show ?thesis
      unfolding write64BE_def read64BE_def priv_write64_nonneg [OF n]
      using unsigned_roundtrip(4) [OF assms n] by simp
  qed
qed

theorem fixed64_roundtrip_witness:
  "(\<exists>b. writeU64 [0, 0, 0, 0, 0, 0, 0, 0, 0] 0x1fffffffffffff 1 = Inr (b, 9) \<and> readU64 b 1 = Inr 0x1fffffffffffff)
   \<and> (\<exists>b. writeU64BE [0, 0, 0, 0, 0, 0, 0, 0, 0] 0x1fffffffffffff 1 = Inr (b, 9) \<and> readU64BE b 1 = Inr 0x1fffffffffffff)
   \<and> (\<exists>b. write64 [0, 0, 0, 0, 0, 0, 0, 0, 0] (- 0x1fffffffffffff) 1 = Inr (b, 9) \<and> read64 b 1 = Inr (- 0x1fffffffffffff))
   \<and> (\<exists>b. write64BE [0, 0, 0, 0, 0, 0, 0, 0, 0] (- 0x1fffffffffffff) 1 = Inr (b, 9) \<and> read64BE b 1 = Inr (- 0x1fffffffffffff))"
  using fixed64_roundtrip [of 1 "[0, 0, 0, 0, 0, 0, 0, 0, 0]" "0x1fffffffffffff"]
    fixed64_roundtrip [of 1 "[0, 0, 0, 0, 0, 0, 0, 0, 0]" "- 0x1fffffffffffff"]
  by simp

text \<open>
  Claim C4. For every integer \<open>n\<close> with \<open>0 \<le> n \<le> 10^6\<close> (the boundary values 0, 127, 128,
  16511 and 16512 are among them) and every buffer with room for the encoding at \<open>off\<close>,
  \<open>writeVarint2\<close> returns \<open>off + sizeVarint2 n\<close>, and \<open>readVarint2\<close> on the written buffer
  returns the size \<open>sizeVarint2 n\<close> and the value \<open>n\<close>.
\<close>

theorem varint2_roundtrip:
  assumes "0 \<le> n" "n \<le> 1000000" "off + sizeVarint2 n \<le> length dst"
  shows "\<exists>b. writeVarint2 dst n (Some off) = Inr (b, off + sizeVarint2 n)
             \<and> readVarint2 b off = Inr (Varint (sizeVarint2 n) n)"
proof (rule varint2_roundtrip_general [OF assms(1) _ assms(3)])
  have "n div 128 \<le> n" using assms(1) by simp
  then show "n div 128 < 0x3fffffffffff" using assms(2) by simp
qed

theorem varint2_roundtrip_witness:
  "(\<exists>b. writeVarint2 [0, 0, 0] 0 (Some 0) = Inr (b, 1) \<and> readVarint2 b 0 = Inr (Varint 1 0))
   \<and> (\<exists>b. writeVarint2 [0, 0, 0] 127 (Some 0) = Inr (b, 1) \<and> readVarint2 b 0 = Inr (Varint 1 127))
   \<and> (\<exists>b. writeVarint2 [0, 0, 0] 128 (Some 0) = Inr (b, 2) \<and> readVarint2 b 0 = Inr (Varint 2 128))
   \<and> (\<exists>b. writeVarint2 [0, 0, 0] 16511 (Some 0) = Inr (b, 2) \<and> readVarint2 b 0 = Inr (Varint 2 16511))
   \<and> (\<exists>b. writeVarint2 [0, 0, 0] 16512 (Some 0) = Inr (b, 3) \<and> readVarint2 b 0 = Inr (Varint 3 16512))
   \<and> (\<exists>b. writeVarint2 [0, 0, 0] 1000000 (Some 0) = Inr (b, 3) \<and> readVarint2 b 0 = Inr (Varint 3 1000000))"
proof -
  have s: "sizeVarint2 0 = 1" "sizeVarint2 127 = 1" "sizeVarint2 128 = 2" "sizeVarint2 16511 = 2"
    "sizeVarint2 16512 = 3" "sizeVarint2 1000000 = 3"
    by code_simp+
  have l: "0 + sizeVarint2 n \<le> length [0, 0, 0 :: byte]" if "sizeVarint2 n \<le> 3" for n
    using that by simp
  show ?thesis
    using varint2_roundtrip [of 0 0 "[0, 0, 0]", OF _ _ l, unfolded s add_0]
      varint2_roundtrip [of 127 0 "[0, 0, 0]", OF _ _ l, unfolded s add_0]
      varint2_roundtrip [of 128 0 "[0, 0, 0]", OF _ _ l, unfolded s add_0]
      varint2_roundtrip [of 16511 0 "[0, 0, 0]", OF _ _ l, unfolded s add_0]
      varint2_roundtrip [of 16512 0 "[0, 0, 0]", OF _ _ l, unfolded s add_0]
      varint2_roundtrip [of 1000000 0 "[0, 0, 0]", OF _ _ l, unfolded s add_0]
    by simp
qed

text \<open>
  Claim C5 says that \<open>readVarint2BN\<close> never returns a value above \<open>2^64 - 1\<close>. The
  assertion \<open>num.bitLength() <= 64\<close> is evaluated before the shift by 7 bits, not after
  it, so a value of up to 71 bits is returned when the byte that follows is the last one.
  Nine bytes \<open>0xff\<close> and a final \<open>0x7f\<close> decode to a value of 71 bits:
\<close>

theorem readVarint2BN_returns_above_64_bits:
  "readVarint2BN [0xff, 0xff, 0xff, 0xff, 0xff, 0xff, 0xff, 0xff, 0xff, 0x7f] 0
     = Inr (Varint 10 1189887617730934227071)
   \<and> U64_MAX < 1189887617730934227071"
  by code_simp





text \<open>
  \<open>writeVarint2\<close> is the one writer with a bounds assertion, \<open>off + len <= dst.length\<close>,
  where \<open>len\<close> is the index of the last digit, one less than the number of bytes. With
  exactly one byte too few the assertion passes and the last byte is dropped:
\<close>

lemma writeVarint2_last_byte_dropped:
  "sizeVarint2 128 = 2 \<and> writeVarint2 [0] 128 (Some 0) = Inr ([0x80], 2)"
  by code_simp

text \<open>
  Claim C7 says that \<open>readVarint2\<close> fails exactly when the accumulated value would exceed
  \<open>2^53 - 1\<close>, and that every value it returns lies between 0 and \<open>2^53 - 1\<close>. The code
  fails earlier: its assertion, with the message \<open>Number exceeds 2^53-1.\<close>, is
  \<open>num < 0x3fffffffffff\<close> on the running value before the step, which also rejects the
  accumulations from \<open>2^53 - 128\<close> to \<open>2^53 - 1\<close>. The eight bytes that \<open>writeVarint2\<close>
  writes for \<open>2^53 - 128\<close> are rejected by \<open>readVarint2\<close> at the last step, where the
  accumulated value would be \<open>2^53 - 128\<close>; \<open>readVarint2BN\<close> decodes the same bytes.
\<close>

theorem readVarint2_rejects_safe_value:
  "writeVarint2 [0, 0, 0, 0, 0, 0, 0, 0] 0x1fffffffffff80 (Some 0)
     = Inr ([0x8e, 0xfe, 0xfe, 0xfe, 0xfe, 0xfe, 0xfe, 0x00], 8)
   \<and> readVarint2 [0x8e, 0xfe, 0xfe, 0xfe, 0xfe, 0xfe, 0xfe, 0x00] 0 = Inl RangeFault
   \<and> readVarint2_loop [0x8e, 0xfe, 0xfe, 0xfe, 0xfe, 0xfe, 0xfe, 0x00] 7 7 0x3fffffffffff
       = Inl RangeFault
   \<and> 0x3fffffffffff * 0x80 + js_and (u8 [0x8e, 0xfe, 0xfe, 0xfe, 0xfe, 0xfe, 0xfe, 0x00] 7) 0x7f
       = 0x1fffffffffff80
   \<and> 0x1fffffffffff80 \<le> MAX_SAFE_INTEGER
   \<and> readVarint2BN [0x8e, 0xfe, 0xfe, 0xfe, 0xfe, 0xfe, 0xfe, 0x00] 0
       = Inr (Varint 8 0x1fffffffffff80)"
  by code_simp

text \<open>
  Claim C8. On a buffer with at least \<open>off + 8\<close> bytes, \<open>readU53\<close> and \<open>readU53BE\<close>
  never raise the safe-range fault: the top 11 bits of the high half are masked before
  the assertion, and the result is \<open>(hi mod 2^21) * 2^32 + lo\<close>, a value between 0 and
  \<open>2^53 - 1\<close>, which is the 64-bit value reduced modulo \<open>2^53\<close>: larger values alias to
  smaller ones.
\<close>

theorem readU53_never_faults:
  assumes "off + 8 \<le> length data"
  shows "(let hi = uint32LE data (off + 4); lo = uint32LE data off;
              v = (hi mod 2 ^ 21) * 2 ^ 32 + lo
          in readU53 data off = Inr v \<and> 0 \<le> v \<and> v \<le> MAX_SAFE_INTEGER
             \<and> v = (hi * 2 ^ 32 + lo) mod 2 ^ 53)
       \<and> (let hi = uint32BE data off; lo = uint32BE data (off + 4);
              v = (hi mod 2 ^ 21) * 2 ^ 32 + lo
          in readU53BE data off = Inr v \<and> 0 \<le> v \<and> v \<le> MAX_SAFE_INTEGER
             \<and> v = (hi * 2 ^ 32 + lo) mod 2 ^ 53)"
proof -
  have r: "0 \<le> (hi mod 2 ^ 21) * 2 ^ 32 + lo \<and> (hi mod 2 ^ 21) * 2 ^ 32 + lo \<le> MAX_SAFE_INTEGER
           \<and> (hi mod 2 ^ 21) * 2 ^ 32 + lo = (hi * 2 ^ 32 + lo) mod 2 ^ 53"
    if a: "0 \<le> lo" "lo < 2 ^ 32" for hi lo :: int
  proof -
    have h: "0 \<le> hi mod 2097152" "hi mod 2097152 \<le> 2097151"
      using pos_mod_bound [of 2097152 hi] by simp_all
    show ?thesis
      using h a mod53 [of lo hi] by (simp add: MAX_SAFE_INTEGER_def)
  qed
  have le: "readU53 data off = Inr ((uint32LE data (off + 4) mod 2 ^ 21) * 2 ^ 32 + uint32LE data off)"
    using assms priv_readU64_force53 [OF uint32LE_bounds, of data "off + 4"]
    by (simp add: readU53_def priv_readU64_def readUInt32LE_def js_and_1fffff)
  have be: "readU53BE data off = Inr ((uint32BE data off mod 2 ^ 21) * 2 ^ 32 + uint32BE data (off + 4))"
    using assms priv_readU64_force53 [OF uint32BE_bounds, of data off]
    by (simp add: readU53BE_def priv_readU64_def readUInt32BE_def js_and_1fffff)
  show ?thesis
    unfolding Let_def
    using le be r [OF uint32LE_bounds [of data off], where hi = "uint32LE data (off + 4)"]
      r [OF uint32BE_bounds [of data "off + 4"], where hi = "uint32BE data off"]
    by blast
qed

theorem readU53_never_faults_witness:
  "readU53 [0xff, 0xff, 0xff, 0xff, 0xff, 0xff, 0xff, 0xff] 0 = Inr 0x1fffffffffffff
   \<and> readU53BE [0xff, 0xff, 0xff, 0xff, 0xff, 0xff, 0xff, 0xff] 0 = Inr 0x1fffffffffffff"
  using readU53_never_faults [of 0 "[0xff, 0xff, 0xff, 0xff, 0xff, 0xff, 0xff, 0xff]"]
  by (simp add: uint32LE_def uint32BE_def u8_def Let_def)

text \<open>
  Claim C9 says that no operation changes its numeric argument. Above 53 bits
  \<open>writeVarint2BN\<close> runs \<open>num.iushrn(7).isubn(1)\<close> on the caller's object, where
  \<open>sizeVarint2BN\<close> works on \<open>num.clone()\<close>. After \<open>writeVarint2BN(dst, 2^53, 0)\<close> the
  caller's \<open>num\<close> holds 14; after \<open>sizeVarint2BN(2^53)\<close> it still holds \<open>2^53\<close>:
\<close>

theorem writeVarint2BN_changes_num:
  "writeVarint2BN [0, 0, 0, 0, 0, 0, 0, 0] 0x20000000000000 0
     = (Inr ([0x8e, 0xfe, 0xfe, 0xfe, 0xfe, 0xfe, 0xff, 0x00], 8), 14)
   \<and> sizeVarint2BN 0x20000000000000 = (8, 0x20000000000000)"
  by code_simp

text \<open>
  Claim C10. For an offset inside the buffer, \<open>skipVarint\<close> returns 9, 5, 3 or 1 according
  to the tag byte alone; it raises no fault when that size exceeds the bytes that remain
  (the first buffer of the witness holds one byte, and the size returned is 9).
\<close>

theorem skipVarint_tag_only:
  assumes "off < length data"
  shows "skipVarint data off =
           Inr (if data ! off = 0xff then 9 else if data ! off = 0xfe then 5
                else if data ! off = 0xfd then 3 else 1)"
proof -
  have "u8 data off = 255 \<longleftrightarrow> data ! off = 255" "u8 data off = 254 \<longleftrightarrow> data ! off = 254"
    "u8 data off = 253 \<longleftrightarrow> data ! off = 253"
    by (simp_all add: u8_def word_uint_eq_iff)
  then show ?thesis
    using assms by (simp add: skipVarint_def)
qed


theorem skipVarint_tag_only_witness:
  "skipVarint [0xff] 0 = Inr 9 \<and> skipVarint [0xfe, 0x01] 0 = Inr 5
   \<and> skipVarint [0xfd] 0 = Inr 3 \<and> skipVarint [0xfc] 0 = Inr 1"
  using skipVarint_tag_only [of 0 "[0xff]"] skipVarint_tag_only [of 0 "[0xfe, 0x01]"]
    skipVarint_tag_only [of 0 "[0xfd]"] skipVarint_tag_only [of 0 "[0xfc]"]
  by simp

end
